theory Spec2Isabelle
  imports Main
begin

section \<open>Side-view actor repositioning: the position resolver\<close>

subsection \<open>Records and JavaScript values\<close>

text \<open>
  The plugin keeps one array \<open>positions\<close> of records, read from the plugin parameters.
  Each record carries the configured fields \<open>parentIndex\<close>, \<open>x\<close>, \<open>y\<close> and, once a
  battle has started, the derived fields \<open>realX\<close> and \<open>realY\<close>.

  The configured fields are integers (plugin parameters of type number without decimals).
  A derived field is a JavaScript value: it is absent (\<open>undefined\<close>) until it is assigned,
  and the only operation applied to it is the numeric \<open>+\<close>, which yields \<open>NaN\<close> as soon as
  one operand is \<open>undefined\<close> or \<open>NaN\<close>. Numbers are modelled as unbounded integers; this is
  exact as long as all sums stay below \<open>2^53\<close> in magnitude.
\<close>

datatype jsval = Undefined | NaN | Num int

fun js_add :: "jsval \<Rightarrow> jsval \<Rightarrow> jsval" where
  "js_add (Num a) (Num b) = Num (a + b)"
| "js_add _ _ = NaN"

fun is_num :: "jsval \<Rightarrow> bool" where
  "is_num (Num _) = True"
| "is_num _ = False"

record position =
  parentIndex :: int
  x :: int
  y :: int
  realX :: jsval
  realY :: jsval

datatype error = TypeError | RangeError

text \<open>
  \<open>calculateBattlePositions\<close> works on the module-level array \<open>positions\<close> and on its
  local array \<open>visited\<close>; the nested function \<open>recursiveCalcPos\<close> closes over both.
\<close>

record state =
  positions :: "position list"
  visited :: "bool list"

subsection \<open>The array \<open>visited\<close>\<close>

text \<open>
  Reading \<open>visited[index]\<close> as a condition: an index beyond the array reads \<open>undefined\<close>,
  which is falsy. Writing \<open>visited[index] = v\<close> beyond the array extends it; the holes
  read as \<open>undefined\<close> again, so they are stored as \<open>False\<close>.
\<close>

definition truthy_at :: "bool list \<Rightarrow> nat \<Rightarrow> bool" where
  "truthy_at vs i = (i < length vs \<and> vs ! i)"

definition assign_at :: "bool list \<Rightarrow> nat \<Rightarrow> bool \<Rightarrow> bool list" where
  "assign_at vs i v =
     (if i < length vs then vs[i := v]
      else vs @ replicate (i - length vs) False @ [v])"

definition unvisited :: "state \<Rightarrow> nat set" where
  "unvisited st = {j. j < length (positions st) \<and> \<not> truthy_at (visited st) j}"

lemma truthy_at_assign_at [simp]:
  "truthy_at (assign_at vs i True) j = (j = i \<or> truthy_at vs j)"
  by (auto simp: truthy_at_def assign_at_def nth_append nth_list_update)

lemma finite_unvisited [simp]: "finite (unvisited st)"
  by (simp add: unvisited_def)

lemma unvisited_mark:
  "unvisited (st\<lparr>visited := assign_at (visited st) i True\<rparr>) = unvisited st - {i}"
  by (auto simp: unvisited_def)

lemma card_unvisited_mark:
  assumes "i < length (positions st)" and "\<not> truthy_at (visited st) i"
  shows "card (unvisited (st\<lparr>visited := assign_at (visited st) i True\<rparr>)) < card (unvisited st)"
proof -
  from assms have "i \<in> unvisited st"
    by (simp add: unvisited_def)
  then have "card (unvisited st - {i}) < card (unvisited st)"
    by (intro card_Diff1_less) simp_all
  then show ?thesis
    by (simp only: unvisited_mark)
qed

subsection \<open>Resolving one record\<close>

text \<open>
  \<open>recursiveCalcPos\<close> (source lines 183 to 204). The index is a natural number: the
  callers pass the loop counter, or a \<open>parentIndex\<close> that passed the range test. With an
  index beyond \<open>positions\<close> the constant \<open>curr\<close> is \<open>undefined\<close> and reading
  \<open>curr.parentIndex\<close> throws a \<open>TypeError\<close>. After the recursive call the record of
  \<open>index\<close> and the record of the parent are read from the array as the call left it
  (\<open>curr\<close> and \<open>parent\<close> are references into the array; for a self-parent they are the
  same object). The engine's call stack is left out of this function: it describes the
  calls that run to their end. The section on the call stack has the copy that can run
  out of stack, and relates the two.
\<close>

function recursiveCalcPos :: "state \<Rightarrow> nat \<Rightarrow> error + state" where
  "recursiveCalcPos st index =
     (if truthy_at (visited st) index then Inr st
      else
        let st1 = st\<lparr>visited := assign_at (visited st) index True\<rparr> in
        if length (positions st1) \<le> index then Inl TypeError
        else
          let curr = positions st1 ! index;
              parentIdx = parentIndex curr
          in
            if parentIdx < 0 \<or> parentIdx \<ge> int (length (positions st1)) then
              Inr (st1\<lparr>positions := (positions st1)
                     [index := curr\<lparr>realX := Num (x curr), realY := Num (y curr)\<rparr>]\<rparr>)
            else
              (case recursiveCalcPos st1 (nat parentIdx) of
                 Inl e \<Rightarrow> Inl e
               | Inr st2 \<Rightarrow>
                   let curr2 = positions st2 ! index;
                       parent = positions st2 ! nat parentIdx
                   in Inr (st2\<lparr>positions := (positions st2)
                        [index := curr2\<lparr>realX := js_add (Num (x curr2)) (realX parent),
                                        realY := js_add (Num (y curr2)) (realY parent)\<rparr>]\<rparr>)))"
  by pat_completeness auto
termination
proof (relation "measure (\<lambda>(st, index). card (unvisited st))")
  show "wf (measure (\<lambda>(st, index). card (unvisited st)))"
    by simp
next
  fix st :: state and index :: nat and st1 curr parentIdx
  assume "\<not> truthy_at (visited st) index"
    and "st1 = st\<lparr>visited := assign_at (visited st) index True\<rparr>"
    and "\<not> length (positions st1) \<le> index"
  then show "((st1, nat parentIdx), (st, index)) \<in> measure (\<lambda>(st, index). card (unvisited st))"
    using card_unvisited_mark [of index st] by simp
qed

declare recursiveCalcPos.simps [simp del]

text \<open>The four ways through the body of \<open>recursiveCalcPos\<close>.\<close>

definition has_parent :: "position list \<Rightarrow> nat \<Rightarrow> bool" where
  "has_parent ps i =
     (0 \<le> parentIndex (ps ! i) \<and> parentIndex (ps ! i) < int (length ps))"

definition parent_of :: "position list \<Rightarrow> nat \<Rightarrow> nat" where
  "parent_of ps i = nat (parentIndex (ps ! i))"

definition mark :: "state \<Rightarrow> nat \<Rightarrow> state" where
  "mark st i = st\<lparr>visited := assign_at (visited st) i True\<rparr>"

definition assign_real :: "state \<Rightarrow> nat \<Rightarrow> jsval \<Rightarrow> jsval \<Rightarrow> state" where
  "assign_real st i vx vy =
     st\<lparr>positions := (positions st)[i := (positions st ! i)\<lparr>realX := vx, realY := vy\<rparr>]\<rparr>"

lemma recursiveCalcPos_visited:
  "truthy_at (visited st) i \<Longrightarrow> recursiveCalcPos st i = Inr st"
  by (subst recursiveCalcPos.simps) simp

lemma recursiveCalcPos_outside:
  "\<not> truthy_at (visited st) i \<Longrightarrow> length (positions st) \<le> i \<Longrightarrow>
   recursiveCalcPos st i = Inl TypeError"
  by (subst recursiveCalcPos.simps) simp

lemma recursiveCalcPos_root:
  "\<not> truthy_at (visited st) i \<Longrightarrow> i < length (positions st) \<Longrightarrow>
   \<not> has_parent (positions st) i \<Longrightarrow>
   recursiveCalcPos st i =
     Inr (assign_real (mark st i) i (Num (x (positions st ! i))) (Num (y (positions st ! i))))"
  by (subst recursiveCalcPos.simps)
     (auto simp: has_parent_def mark_def assign_real_def Let_def)

lemma recursiveCalcPos_child:
  "\<not> truthy_at (visited st) i \<Longrightarrow> i < length (positions st) \<Longrightarrow>
   has_parent (positions st) i \<Longrightarrow>
   recursiveCalcPos st i =
     (case recursiveCalcPos (mark st i) (parent_of (positions st) i) of
        Inl e \<Rightarrow> Inl e
      | Inr st2 \<Rightarrow>
          Inr (assign_real st2 i
                 (js_add (Num (x (positions st2 ! i)))
                    (realX (positions st2 ! parent_of (positions st) i)))
                 (js_add (Num (y (positions st2 ! i)))
                    (realY (positions st2 ! parent_of (positions st) i)))))"
  by (subst recursiveCalcPos.simps)
     (auto simp: has_parent_def parent_of_def mark_def assign_real_def Let_def
           split: sum.splits)

text \<open>Induction along the calls of \<open>recursiveCalcPos\<close>, one case per way through its body.\<close>

lemma recursiveCalcPos_cases_induct [case_names visited outside root child]:
  assumes "\<And>st i. truthy_at (visited st) i \<Longrightarrow> P st i"
    and "\<And>st i. \<not> truthy_at (visited st) i \<Longrightarrow> length (positions st) \<le> i \<Longrightarrow> P st i"
    and "\<And>st i. \<not> truthy_at (visited st) i \<Longrightarrow> i < length (positions st) \<Longrightarrow>
           \<not> has_parent (positions st) i \<Longrightarrow> P st i"
    and "\<And>st i. \<not> truthy_at (visited st) i \<Longrightarrow> i < length (positions st) \<Longrightarrow>
           has_parent (positions st) i \<Longrightarrow>
           P (mark st i) (parent_of (positions st) i) \<Longrightarrow> P st i"
  shows "P st i"
proof (induction st i rule: recursiveCalcPos.induct)
  case (1 st index)
  show ?case
  proof (cases "truthy_at (visited st) index")
    case True
    then show ?thesis by (rule assms(1))
  next
    case unseen: False
    show ?thesis
    proof (cases "length (positions st) \<le> index")
      case True
      with unseen show ?thesis by (rule assms(2))
    next
      case False
      then have inside: "index < length (positions st)" by simp
      show ?thesis
      proof (cases "has_parent (positions st) index")
        case False
        with unseen inside show ?thesis by (rule assms(3))
      next
        case True
        have "P (mark st index) (parent_of (positions st) index)"
          unfolding mark_def parent_of_def
          using unseen inside True
          by (intro "1.IH") (auto simp: has_parent_def)
        with unseen inside True show ?thesis by (rule assms(4))
      qed
    qed
  qed
qed

text \<open>The configured part of a record: what the plugin parameters hold.\<close>

definition config :: "position \<Rightarrow> int \<times> int \<times> int" where
  "config p = (parentIndex p, x p, y p)"

lemma positions_mark [simp]: "positions (mark st i) = positions st"
  by (simp add: mark_def)

lemma visited_mark [simp]: "truthy_at (visited (mark st i)) j = (j = i \<or> truthy_at (visited st) j)"
  by (simp add: mark_def)

lemma visited_assign_real [simp]: "visited (assign_real st i vx vy) = visited st"
  by (simp add: assign_real_def)

lemma length_assign_real [simp]:
  "length (positions (assign_real st i vx vy)) = length (positions st)"
  by (simp add: assign_real_def)

lemma nth_assign_real:
  "positions (assign_real st i vx vy) ! j =
     (if j = i \<and> i < length (positions st)
      then (positions st ! i)\<lparr>realX := vx, realY := vy\<rparr> else positions st ! j)"
  by (cases "i < length (positions st)")
     (auto simp: assign_real_def nth_list_update list_update_beyond not_less)

lemma config_assign_real [simp]:
  "map config (positions (assign_real st i vx vy)) = map config (positions st)"
  by (rule nth_equalityI) (auto simp: nth_assign_real config_def)

lemma recursiveCalcPos_config:
  "recursiveCalcPos st i = Inr st' \<Longrightarrow> map config (positions st') = map config (positions st)"
proof (induction st i arbitrary: st' rule: recursiveCalcPos_cases_induct)
  case (visited st i)
  then show ?case by (simp add: recursiveCalcPos_visited)
next
  case (outside st i)
  then show ?case by (simp add: recursiveCalcPos_outside)
next
  case (root st i)
  then show ?case by (auto simp: recursiveCalcPos_root)
next
  case (child st i)
  from child.prems child.hyps show ?case
    by (auto simp: recursiveCalcPos_child split: sum.splits dest: child.IH)
qed

lemma config_nth:
  assumes "map config ps' = map config ps" and "j < length ps"
  shows "parentIndex (ps' ! j) = parentIndex (ps ! j)"
    and "x (ps' ! j) = x (ps ! j)"
    and "y (ps' ! j) = y (ps ! j)"
proof -
  from assms(1) have len: "length ps' = length ps"
    by (rule map_eq_imp_length_eq)
  from assms(1) have "map config ps' ! j = map config ps ! j"
    by simp
  with assms(2) len have "config (ps' ! j) = config (ps ! j)"
    by simp
  then show "parentIndex (ps' ! j) = parentIndex (ps ! j)"
    and "x (ps' ! j) = x (ps ! j)"
    and "y (ps' ! j) = y (ps ! j)"
    by (simp_all add: config_def)
qed

lemma config_has_parent:
  assumes "map config ps' = map config ps" and "j < length ps"
  shows "has_parent ps' j = has_parent ps j" and "parent_of ps' j = parent_of ps j"
  using config_nth(1) [OF assms] map_eq_imp_length_eq [OF assms(1)]
  by (simp_all add: has_parent_def parent_of_def)

lemma has_parent_inside:
  "has_parent ps i \<Longrightarrow> parent_of ps i < length ps"
  unfolding has_parent_def parent_of_def by linarith

lemma recursiveCalcPos_length:
  "recursiveCalcPos st i = Inr st' \<Longrightarrow> length (positions st') = length (positions st)"
  by (drule recursiveCalcPos_config) (rule map_eq_imp_length_eq)

lemma recursiveCalcPos_returns:
  "i < length (positions st) \<Longrightarrow> \<exists>st'. recursiveCalcPos st i = Inr st'"
proof (induction st i rule: recursiveCalcPos_cases_induct)
  case (visited st i)
  then show ?case by (simp add: recursiveCalcPos_visited)
next
  case (outside st i)
  then show ?case by simp
next
  case (root st i)
  then show ?case by (simp add: recursiveCalcPos_root)
next
  case (child st i)
  from child.hyps have "parent_of (positions st) i < length (positions (mark st i))"
    by (simp add: has_parent_inside)
  then obtain st2 where "recursiveCalcPos (mark st i) (parent_of (positions st) i) = Inr st2"
    using child.IH by blast
  with child.hyps show ?case
    by (simp add: recursiveCalcPos_child)
qed

lemma recursiveCalcPos_marks:
  "recursiveCalcPos st i = Inr st' \<Longrightarrow> truthy_at (visited st') i"
  and recursiveCalcPos_keeps_marks:
  "recursiveCalcPos st i = Inr st' \<Longrightarrow> truthy_at (visited st) j \<Longrightarrow> truthy_at (visited st') j"
  and recursiveCalcPos_keeps_visited_record:
  "recursiveCalcPos st i = Inr st' \<Longrightarrow> truthy_at (visited st) j \<Longrightarrow>
     positions st' ! j = positions st ! j"
  and recursiveCalcPos_marks_inside:
  "recursiveCalcPos st i = Inr st' \<Longrightarrow> truthy_at (visited st') j \<Longrightarrow>
     \<not> truthy_at (visited st) j \<Longrightarrow> j < length (positions st)"
proof (induction st i arbitrary: st' j rule: recursiveCalcPos_cases_induct)
  case (visited st i)
  {
    case 1 then show ?case using visited by (simp add: recursiveCalcPos_visited)
  next
    case 2 then show ?case using visited by (simp add: recursiveCalcPos_visited)
  next
    case 3 then show ?case using visited by (simp add: recursiveCalcPos_visited)
  next
    case 4 then show ?case using visited by (simp add: recursiveCalcPos_visited)
  }
next
  case (outside st i)
  {
    case 1 then show ?case using outside by (simp add: recursiveCalcPos_outside)
  next
    case 2 then show ?case using outside by (simp add: recursiveCalcPos_outside)
  next
    case 3 then show ?case using outside by (simp add: recursiveCalcPos_outside)
  next
    case 4 then show ?case using outside by (simp add: recursiveCalcPos_outside)
  }
next
  case (root st i)
  {
    case 1 then show ?case using root by (auto simp: recursiveCalcPos_root)
  next
    case 2 then show ?case using root by (auto simp: recursiveCalcPos_root)
  next
    case 3 then show ?case using root by (auto simp: recursiveCalcPos_root nth_assign_real)
  next
    case 4 then show ?case using root by (auto simp: recursiveCalcPos_root)
  }
next
  case (child st i)
  {
    case 1 then show ?case using child.hyps
      by (auto simp: recursiveCalcPos_child split: sum.splits dest: child.IH(2))
  next
    case 2 then show ?case using child.hyps
      by (auto simp: recursiveCalcPos_child split: sum.splits dest: child.IH(2))
  next
    case 3
    then obtain st2 where st2: "recursiveCalcPos (mark st i) (parent_of (positions st) i) = Inr st2"
      and st': "st' = assign_real st2 i
                 (js_add (Num (x (positions st2 ! i)))
                    (realX (positions st2 ! parent_of (positions st) i)))
                 (js_add (Num (y (positions st2 ! i)))
                    (realY (positions st2 ! parent_of (positions st) i)))"
      using child.hyps by (auto simp: recursiveCalcPos_child split: sum.splits)
    from 3 child.hyps have "j \<noteq> i" by auto
    moreover from 3 have "positions st2 ! j = positions st ! j"
      using child.IH(3) [OF st2, of j] by simp
    ultimately show ?case by (simp add: st' nth_assign_real)
  next
    case 4 then show ?case using child.hyps
      by (auto simp: recursiveCalcPos_child split: sum.splits dest: child.IH(4))
  }
qed

subsection \<open>The loop over all records\<close>

text \<open>
  The loop of \<open>calculateBattlePositions\<close> (source lines 207 to 209); an exception thrown
  by the body ends the loop.
\<close>

function for_loop :: "state \<Rightarrow> nat \<Rightarrow> error + state" where
  "for_loop st index =
     (if index < length (positions st) then
        (case recursiveCalcPos st index of
           Inl e \<Rightarrow> Inl e
         | Inr st' \<Rightarrow> for_loop st' (index + 1))
      else Inr st)"
  by pat_completeness auto
termination
proof (relation "measure (\<lambda>(st, index). length (positions st) - index)")
  show "wf (measure (\<lambda>(st, index). length (positions st) - index))"
    by simp
next
  fix st :: state and index :: nat and st'
  assume "index < length (positions st)" and "recursiveCalcPos st index = Inr st'"
  then show "((st', index + 1), (st, index))
      \<in> measure (\<lambda>(st, index). length (positions st) - index)"
    using recursiveCalcPos_length [of st index st'] by simp
qed

declare for_loop.simps [simp del]

text \<open>
  \<open>calculateBattlePositions\<close> (source lines 168 to 210): a fresh array \<open>visited\<close>, all
  \<open>false\<close>, then the loop. The function returns nothing; its effect is on \<open>positions\<close>,
  which the model returns.
\<close>

definition calculateBattlePositions :: "position list \<Rightarrow> error + position list" where
  "calculateBattlePositions ps =
     (let visited0 = replicate (length ps) False in
      case for_loop \<lparr>positions = ps, visited = visited0\<rparr> 0 of
        Inl e \<Rightarrow> Inl e
      | Inr st \<Rightarrow> Inr (positions st))"

subsection \<open>Loading and placing\<close>

text \<open>
  The array \<open>positions\<close> as the plugin parameters give it (the structure
  \<open>BattlerPosition\<close>, source lines 131 to 154, has the three fields \<open>parentIndex\<close>, \<open>x\<close>,
  \<open>y\<close>): the derived fields are absent until the first pass assigns them.
\<close>

definition fresh :: "int \<times> int \<times> int \<Rightarrow> position" where
  "fresh c = (case c of (p, a, b) \<Rightarrow>
     \<lparr>parentIndex = p, x = a, y = b, realX = Undefined, realY = Undefined\<rparr>)"

definition loadPositions :: "(int \<times> int \<times> int) list \<Rightarrow> position list" where
  "loadPositions cs = map fresh cs"

text \<open>
  \<open>Sprite_Actor.prototype.setActorHome\<close> (source lines 221 to 231). The result is the call
  it makes: \<open>setHome\<close> with the two derived fields, or the method of the engine it
  replaced, with the same index. \<open>positions[index]\<close> is \<open>undefined\<close> (falsy) for an index
  outside the array, also a negative one, and a record (truthy) inside.
\<close>

datatype placement = SetHome jsval jsval | HostDefault int

definition setActorHome :: "position list \<Rightarrow> int \<Rightarrow> placement" where
  "setActorHome ps index =
     (if 0 \<le> index \<and> index < int (length ps) then
        (let position = ps ! nat index in SetHome (realX position) (realY position))
      else HostDefault index)"

section \<open>Parent chains\<close>

text \<open>
  A record has a valid, non-cyclic parent chain when following \<open>parentIndex\<close> from it
  stays inside the array and ends at a record without a parent. Such a chain never visits
  a record twice, so it has at most as many records as the array; \<open>chain_ends ps n i\<close>
  follows the chain from \<open>i\<close> through at most \<open>n\<close> records.
\<close>

fun chain_ends :: "position list \<Rightarrow> nat \<Rightarrow> nat \<Rightarrow> bool" where
  "chain_ends ps 0 i = False"
| "chain_ends ps (Suc n) i =
     (i < length ps \<and> (\<not> has_parent ps i \<or> chain_ends ps n (parent_of ps i)))"

definition rooted :: "position list \<Rightarrow> nat \<Rightarrow> bool" where
  "rooted ps i = chain_ends ps (length ps) i"

text \<open>
  The same chain with what it determines: the number of parent links up to its root, and
  the sums of the offsets \<open>x\<close> and \<open>y\<close> along it.
\<close>

inductive anchored :: "position list \<Rightarrow> nat \<Rightarrow> nat \<Rightarrow> int \<Rightarrow> int \<Rightarrow> bool"
  for ps :: "position list" where
  anchored_root: "i < length ps \<Longrightarrow> \<not> has_parent ps i \<Longrightarrow>
    anchored ps i 0 (x (ps ! i)) (y (ps ! i))"
| anchored_child: "i < length ps \<Longrightarrow> has_parent ps i \<Longrightarrow>
    anchored ps (parent_of ps i) d vx vy \<Longrightarrow>
    anchored ps i (Suc d) (x (ps ! i) + vx) (y (ps ! i) + vy)"

lemma anchored_inside: "anchored ps i d vx vy \<Longrightarrow> i < length ps"
  by (erule anchored.cases) simp_all

lemma anchored_root_inv:
  assumes "anchored ps i d vx vy" and "\<not> has_parent ps i"
  shows "d = 0 \<and> vx = x (ps ! i) \<and> vy = y (ps ! i)"
  using assms by (cases rule: anchored.cases) simp_all

lemma anchored_child_inv:
  assumes "anchored ps i d vx vy" and "has_parent ps i"
  shows "\<exists>d' vx' vy'. anchored ps (parent_of ps i) d' vx' vy' \<and>
           d = Suc d' \<and> vx = x (ps ! i) + vx' \<and> vy = y (ps ! i) + vy'"
  using assms by (cases rule: anchored.cases) simp_all

lemma anchored_unique:
  "anchored ps i d vx vy \<Longrightarrow> anchored ps i e wx wy \<Longrightarrow> d = e \<and> vx = wx \<and> vy = wy"
proof (induction arbitrary: e wx wy rule: anchored.induct)
  case (anchored_root i)
  from anchored_root.prems anchored_root.hyps show ?case
    by (auto elim: anchored.cases)
next
  case (anchored_child i d vx vy)
  from anchored_child.prems anchored_child.hyps(2) obtain e' wx' wy'
    where "anchored ps (parent_of ps i) e' wx' wy'"
      and "e = Suc e'" and "wx = x (ps ! i) + wx'" and "wy = y (ps ! i) + wy'"
    by (auto elim: anchored.cases)
  with anchored_child.IH show ?case by blast
qed

lemma anchored_config:
  assumes "map config ps' = map config ps"
  shows "anchored ps i d vx vy \<Longrightarrow> anchored ps' i d vx vy"
proof (induction rule: anchored.induct)
  case (anchored_root i)
  with assms have "i < length ps'" and "\<not> has_parent ps' i"
    using config_has_parent(1) [OF assms, of i] map_eq_imp_length_eq [OF assms] by simp_all
  then have "anchored ps' i 0 (x (ps' ! i)) (y (ps' ! i))"
    by (rule anchored.anchored_root)
  with anchored_root show ?case
    by (simp add: config_nth [OF assms])
next
  case (anchored_child i d vx vy)
  with assms have "i < length ps'" and "has_parent ps' i"
    and "anchored ps' (parent_of ps' i) d vx vy"
    using config_has_parent [OF assms, of i] map_eq_imp_length_eq [OF assms] by simp_all
  then have "anchored ps' i (Suc d) (x (ps' ! i) + vx) (y (ps' ! i) + vy)"
    by (rule anchored.anchored_child)
  with anchored_child show ?case
    by (simp add: config_nth [OF assms])
qed

lemma chain_ends_anchored:
  "chain_ends ps n i \<Longrightarrow> \<exists>d vx vy. anchored ps i d vx vy"
proof (induction n arbitrary: i)
  case 0
  then show ?case by simp
next
  case (Suc n)
  show ?case
  proof (cases "has_parent ps i")
    case False
    with Suc.prems show ?thesis
      by (auto intro: anchored_root)
  next
    case True
    with Suc.prems have "chain_ends ps n (parent_of ps i)" and "i < length ps"
      by simp_all
    with Suc.IH True show ?thesis
      by (blast intro: anchored_child)
  qed
qed

lemma anchored_chain_ends: "anchored ps i d vx vy \<Longrightarrow> d < n \<Longrightarrow> chain_ends ps n i"
proof (induction arbitrary: n rule: anchored.induct)
  case (anchored_root i)
  then show ?case by (cases n) simp_all
next
  case (anchored_child i d vx vy)
  then show ?case by (cases n) simp_all
qed

lemma anchored_below:
  "anchored ps i d vx vy \<Longrightarrow> e \<le> d \<Longrightarrow> \<exists>j wx wy. anchored ps j e wx wy"
proof (induction rule: anchored.induct)
  case (anchored_root i)
  then show ?case by (auto intro: anchored.anchored_root)
next
  case (anchored_child i d vx vy)
  show ?case
  proof (cases "e = Suc d")
    case True
    then show ?thesis
      using anchored.anchored_child [OF anchored_child.hyps] by blast
  next
    case False
    with anchored_child.prems have "e \<le> d" by simp
    then show ?thesis by (rule anchored_child.IH)
  qed
qed

lemma anchored_depth_less:
  assumes "anchored ps i d vx vy"
  shows "d < length ps"
proof -
  define at where "at e = (SOME j. \<exists>wx wy. anchored ps j e wx wy)" for e
  have at: "\<exists>wx wy. anchored ps (at e) e wx wy" if "e \<le> d" for e
  proof -
    from anchored_below [OF assms that] have "\<exists>j. \<exists>wx wy. anchored ps j e wx wy"
      by blast
    then show ?thesis
      unfolding at_def by (rule someI_ex)
  qed
  have "inj_on at {..d}"
  proof (rule inj_onI)
    fix e e'
    assume "e \<in> {..d}" and "e' \<in> {..d}" and eq: "at e = at e'"
    then obtain wx wy wx' wy' where "anchored ps (at e) e wx wy"
      and "anchored ps (at e') e' wx' wy'"
      using at by (metis atMost_iff)
    with eq show "e = e'"
      using anchored_unique by metis
  qed
  moreover have "at ` {..d} \<subseteq> {..<length ps}"
    using at anchored_inside by fastforce
  ultimately have "card {..d} \<le> card {..<length ps}"
    by (intro card_inj_on_le) simp_all
  then show ?thesis by simp
qed

lemma rooted_iff_anchored: "rooted ps i \<longleftrightarrow> (\<exists>d vx vy. anchored ps i d vx vy)"
  unfolding rooted_def
  using chain_ends_anchored anchored_chain_ends anchored_depth_less by blast

lemma rooted_inside: "rooted ps i \<Longrightarrow> i < length ps"
  by (auto simp: rooted_iff_anchored dest: anchored_inside)

lemma rooted_config:
  assumes "map config ps' = map config ps"
  shows "rooted ps' i = rooted ps i"
  unfolding rooted_iff_anchored
  using anchored_config [OF assms] anchored_config [OF assms [symmetric]] by blast

lemma rooted_root: "i < length ps \<Longrightarrow> \<not> has_parent ps i \<Longrightarrow> rooted ps i"
  unfolding rooted_iff_anchored by (blast intro: anchored_root)

lemma rooted_child_iff:
  "i < length ps \<Longrightarrow> has_parent ps i \<Longrightarrow> rooted ps i = rooted ps (parent_of ps i)"
  unfolding rooted_iff_anchored
  by (blast intro: anchored_child dest: anchored_child_inv)

section \<open>What a call of \<open>recursiveCalcPos\<close> settles\<close>

text \<open>
  A record is settled at \<open>(vx, vy)\<close> when its derived fields hold these two numbers.
\<close>

definition settled :: "state \<Rightarrow> nat \<Rightarrow> int \<Rightarrow> int \<Rightarrow> bool" where
  "settled st j vx vy =
     (realX (positions st ! j) = Num vx \<and> realY (positions st ! j) = Num vy)"

lemma settled_assign_real_other:
  "j \<noteq> i \<Longrightarrow> settled (assign_real st i wx wy) j vx vy = settled st j vx vy"
  by (simp add: settled_def nth_assign_real)

lemma settled_assign_real_same:
  "i < length (positions st) \<Longrightarrow>
   settled (assign_real st i (Num vx) (Num vy)) i vx vy"
  by (simp add: settled_def nth_assign_real)

lemma settled_mark [simp]: "settled (mark st i) j vx vy = settled st j vx vy"
  by (simp add: settled_def)

text \<open>
  A call for a record with a valid chain of \<open>d\<close> links, made when every visited record
  with a chain of at most \<open>d\<close> links is settled, settles every record it visits; each of
  them has a chain of at most \<open>d\<close> links. The records being resolved further up the call
  stack have longer chains, which is why they do not disturb the call.
\<close>

lemma recursiveCalcPos_settles:
  assumes "recursiveCalcPos st i = Inr st'"
    and "map config (positions st) = map config c"
    and "anchored c i d vx vy"
    and "\<And>j e wx wy. truthy_at (visited st) j \<Longrightarrow> anchored c j e wx wy \<Longrightarrow> e \<le> d \<Longrightarrow>
           settled st j wx wy"
    and "truthy_at (visited st') j" and "\<not> truthy_at (visited st) j"
  shows "\<exists>e wx wy. e \<le> d \<and> anchored c j e wx wy \<and> settled st' j wx wy"
  using assms
proof (induction st i arbitrary: st' d vx vy j rule: recursiveCalcPos_cases_induct)
  case (visited st i)
  then show ?case by (simp add: recursiveCalcPos_visited)
next
  case (outside st i)
  then show ?case by (simp add: recursiveCalcPos_outside)
next
  case (root st i)
  have len: "length (positions st) = length c"
    using root.prems(2) by (rule map_eq_imp_length_eq)
  from root.hyps have st': "st' = assign_real (mark st i) i
      (Num (x (positions st ! i))) (Num (y (positions st ! i)))"
    using root.prems(1) by (simp add: recursiveCalcPos_root)
  with root.prems(5,6) have "j = i" by simp
  have "\<not> has_parent c i"
    using root.hyps config_has_parent(1) [OF root.prems(2)] len by simp
  with root.prems(3) have "d = 0" "vx = x (c ! i)" "vy = y (c ! i)"
    using anchored_root_inv by blast+
  moreover have "x (positions st ! i) = x (c ! i)" "y (positions st ! i) = y (c ! i)"
    using config_nth [OF root.prems(2)] root.hyps(2) len by simp_all
  ultimately have "settled st' i vx vy"
    using root.hyps(2) by (simp add: st' settled_def nth_assign_real)
  with root.prems(3) \<open>j = i\<close> show ?case by blast
next
  case (child st i)
  let ?p = "parent_of (positions st) i"
  have len: "length (positions st) = length c"
    using child.prems(2) by (rule map_eq_imp_length_eq)
  have hp: "has_parent c i" and p: "parent_of c i = ?p"
    using child.hyps config_has_parent [OF child.prems(2)] len by simp_all
  from child.prems(3) hp obtain d0 vx0 vy0
    where up: "anchored c ?p d0 vx0 vy0" and d: "d = Suc d0"
      and vx: "vx = x (c ! i) + vx0" and vy: "vy = y (c ! i) + vy0"
    using anchored_child_inv p by metis
  from child.prems(1) child.hyps obtain st2
    where st2: "recursiveCalcPos (mark st i) ?p = Inr st2"
      and st': "st' = assign_real st2 i
                 (js_add (Num (x (positions st2 ! i))) (realX (positions st2 ! ?p)))
                 (js_add (Num (y (positions st2 ! i))) (realY (positions st2 ! ?p)))"
    by (auto simp: recursiveCalcPos_child split: sum.splits)
  have cfg2: "map config (positions st2) = map config c"
    using recursiveCalcPos_config [OF st2] child.prems(2) by simp
  have before: "settled (mark st i) k wx wy"
    if "truthy_at (visited (mark st i)) k" and "anchored c k e wx wy" and "e \<le> d0"
    for k e wx wy
  proof -
    have "k \<noteq> i"
    proof
      assume "k = i"
      with that(2) child.prems(3) have "e = d"
        using anchored_unique by blast
      with that(3) d show False by simp
    qed
    with that(1) have "truthy_at (visited st) k" by simp
    with that(2,3) d show ?thesis
      using child.prems(4) [of k e wx wy] by simp
  qed
  have new: "\<exists>e wx wy. e \<le> d0 \<and> anchored c k e wx wy \<and> settled st2 k wx wy"
    if "truthy_at (visited st2) k" and "\<not> truthy_at (visited (mark st i)) k" for k
    using child.IH [OF st2 _ up before that] child.prems(2) by simp
  have parent: "settled st2 ?p vx0 vy0"
  proof (cases "truthy_at (visited (mark st i)) ?p")
    case True
    then have "settled (mark st i) ?p vx0 vy0"
      using before [OF _ up] by simp
    moreover have "positions st2 ! ?p = positions (mark st i) ! ?p"
      using recursiveCalcPos_keeps_visited_record [OF st2 True] .
    ultimately show ?thesis by (simp add: settled_def)
  next
    case False
    moreover have "truthy_at (visited st2) ?p"
      using st2 by (rule recursiveCalcPos_marks)
    ultimately obtain e wx wy where "anchored c ?p e wx wy" and "settled st2 ?p wx wy"
      using new by blast
    with up show ?thesis
      using anchored_unique by blast
  qed
  have len2: "length (positions st2) = length (positions st)"
    using recursiveCalcPos_length [OF st2] by simp
  have xi: "x (positions st2 ! i) = x (c ! i)" "y (positions st2 ! i) = y (c ! i)"
    using config_nth [OF cfg2] child.hyps(2) len by simp_all
  have self: "settled st' i vx vy"
    using parent child.hyps(2) len2
    by (simp add: st' settled_def nth_assign_real xi vx vy)
  show ?case
  proof (cases "j = i")
    case True
    with self child.prems(3) show ?thesis by blast
  next
    case False
    with child.prems(5,6) have "truthy_at (visited st2) j"
      and "\<not> truthy_at (visited (mark st i)) j"
      by (simp_all add: st')
    then obtain e wx wy where "e \<le> d0" and "anchored c j e wx wy" and "settled st2 j wx wy"
      using new by blast
    moreover from this(1) d have "e \<le> d" by simp
    moreover from False have "settled st' j wx wy = settled st2 j wx wy"
      by (simp add: st' settled_assign_real_other)
    ultimately show ?thesis by blast
  qed
qed

text \<open>Every record a call visits lies on the chain of the record it was called for.\<close>

lemma recursiveCalcPos_visits_chain:
  assumes "recursiveCalcPos st i = Inr st'"
    and "map config (positions st) = map config c"
    and "truthy_at (visited st') j" and "\<not> truthy_at (visited st) j"
    and "rooted c j"
  shows "rooted c i"
  using assms
proof (induction st i arbitrary: st' rule: recursiveCalcPos_cases_induct)
  case (visited st i)
  then show ?case by (simp add: recursiveCalcPos_visited)
next
  case (outside st i)
  then show ?case by (simp add: recursiveCalcPos_outside)
next
  case (root st i)
  then show ?case by (auto simp: recursiveCalcPos_root)
next
  case (child st i)
  let ?p = "parent_of (positions st) i"
  have len: "length (positions st) = length c"
    using child.prems(2) by (rule map_eq_imp_length_eq)
  have hp: "has_parent c i" and p: "parent_of c i = ?p" and i: "i < length c"
    using child.hyps config_has_parent [OF child.prems(2)] len by simp_all
  from child.prems(1) child.hyps obtain st2
    where st2: "recursiveCalcPos (mark st i) ?p = Inr st2"
      and vis: "visited st' = visited st2"
    by (auto simp: recursiveCalcPos_child split: sum.splits)
  show ?case
  proof (cases "j = i")
    case True
    with child.prems(5) show ?thesis by simp
  next
    case False
    with child.prems(3,4) vis have "truthy_at (visited st2) j"
      and "\<not> truthy_at (visited (mark st i)) j"
      by simp_all
    then have "rooted c ?p"
      using child.IH [OF st2] child.prems(2,5) by simp
    then show ?thesis
      using rooted_child_iff [OF i hp] p by simp
  qed
qed

text \<open>
  The records without a valid chain. As long as none of them holds a number, a call
  leaves it so, and every such record it visits ends with \<open>NaN\<close> in both derived fields:
  its parent is such a record too, and adding a number to \<open>undefined\<close> or to \<open>NaN\<close> gives
  \<open>NaN\<close>.
\<close>

definition stale_free :: "position list \<Rightarrow> position list \<Rightarrow> bool" where
  "stale_free c ps =
     (\<forall>j < length c. \<not> rooted c j \<longrightarrow>
        \<not> is_num (realX (ps ! j)) \<and> \<not> is_num (realY (ps ! j)))"

lemma js_add_not_num: "\<not> is_num v \<Longrightarrow> js_add (Num a) v = NaN"
  by (cases v) simp_all

lemma recursiveCalcPos_stale_free:
  assumes "recursiveCalcPos st i = Inr st'"
    and "map config (positions st) = map config c"
    and "stale_free c (positions st)"
  shows "stale_free c (positions st') \<and>
    (\<forall>j. truthy_at (visited st') j \<longrightarrow> \<not> truthy_at (visited st) j \<longrightarrow> \<not> rooted c j \<longrightarrow>
         realX (positions st' ! j) = NaN \<and> realY (positions st' ! j) = NaN)"
  using assms
proof (induction st i arbitrary: st' rule: recursiveCalcPos_cases_induct)
  case (visited st i)
  then show ?case by (simp add: recursiveCalcPos_visited)
next
  case (outside st i)
  then show ?case by (simp add: recursiveCalcPos_outside)
next
  case (root st i)
  have len: "length (positions st) = length c"
    using root.prems(2) by (rule map_eq_imp_length_eq)
  have "\<not> has_parent c i" and "i < length c"
    using root.hyps config_has_parent(1) [OF root.prems(2)] len by simp_all
  then have ri: "rooted c i" by (rule rooted_root [rotated])
  from root.prems(1) root.hyps have st': "st' = assign_real (mark st i) i
      (Num (x (positions st ! i))) (Num (y (positions st ! i)))"
    by (simp add: recursiveCalcPos_root)
  have "stale_free c (positions st')"
    using root.prems(3) ri by (auto simp: st' stale_free_def nth_assign_real)
  moreover have "j = i" if "truthy_at (visited st') j" and "\<not> truthy_at (visited st) j" for j
    using that by (simp add: st')
  ultimately show ?case using ri by blast
next
  case (child st i)
  let ?p = "parent_of (positions st) i"
  have len: "length (positions st) = length c"
    using child.prems(2) by (rule map_eq_imp_length_eq)
  have hp: "has_parent c i" and p: "parent_of c i = ?p" and i: "i < length c"
    using child.hyps config_has_parent [OF child.prems(2)] len by simp_all
  have pin: "?p < length c"
    using has_parent_inside [OF hp] p by simp
  from child.prems(1) child.hyps obtain st2
    where st2: "recursiveCalcPos (mark st i) ?p = Inr st2"
      and st': "st' = assign_real st2 i
                 (js_add (Num (x (positions st2 ! i))) (realX (positions st2 ! ?p)))
                 (js_add (Num (y (positions st2 ! i))) (realY (positions st2 ! ?p)))"
    by (auto simp: recursiveCalcPos_child split: sum.splits)
  have len2: "length (positions st2) = length c"
    using recursiveCalcPos_length [OF st2] len by simp
  have IH: "stale_free c (positions st2) \<and>
    (\<forall>j. truthy_at (visited st2) j \<longrightarrow> \<not> truthy_at (visited (mark st i)) j \<longrightarrow>
       \<not> rooted c j \<longrightarrow> realX (positions st2 ! j) = NaN \<and> realY (positions st2 ! j) = NaN)"
    using child.IH [OF st2] child.prems(2,3) by simp
  then have sf2: "stale_free c (positions st2)" ..
  have nan: "realX (positions st' ! i) = NaN \<and> realY (positions st' ! i) = NaN"
    if "\<not> rooted c i"
  proof -
    from that have "\<not> rooted c ?p"
      using rooted_child_iff [OF i hp] p by simp
    with sf2 pin have "\<not> is_num (realX (positions st2 ! ?p))"
      and "\<not> is_num (realY (positions st2 ! ?p))"
      by (simp_all add: stale_free_def)
    then show ?thesis
      using i len2 by (simp add: st' nth_assign_real js_add_not_num)
  qed
  have "stale_free c (positions st')"
    unfolding stale_free_def
  proof (intro allI impI)
    fix k
    assume k: "k < length c" "\<not> rooted c k"
    show "\<not> is_num (realX (positions st' ! k)) \<and> \<not> is_num (realY (positions st' ! k))"
    proof (cases "k = i")
      case True
      with k nan show ?thesis by simp
    next
      case False
      with k sf2 show ?thesis
        by (simp add: st' nth_assign_real stale_free_def)
    qed
  qed
  moreover have "realX (positions st' ! j) = NaN \<and> realY (positions st' ! j) = NaN"
    if j: "truthy_at (visited st') j" "\<not> truthy_at (visited st) j" "\<not> rooted c j" for j
  proof (cases "j = i")
    case True
    with j nan show ?thesis by simp
  next
    case False
    with j have "truthy_at (visited st2) j" and "\<not> truthy_at (visited (mark st i)) j"
      by (simp_all add: st')
    with IH j(3) have "realX (positions st2 ! j) = NaN \<and> realY (positions st2 ! j) = NaN"
      by blast
    with False show ?thesis
      by (simp add: st' nth_assign_real)
  qed
  ultimately show ?case by blast
qed

section \<open>The loop and the whole pass\<close>

subsection \<open>The loop\<close>

lemma for_loop_done: "length (positions st) \<le> k \<Longrightarrow> for_loop st k = Inr st"
  by (subst for_loop.simps) simp

lemma for_loop_step:
  "k < length (positions st) \<Longrightarrow>
   for_loop st k =
     (case recursiveCalcPos st k of Inl e \<Rightarrow> Inl e | Inr st' \<Rightarrow> for_loop st' (k + 1))"
  by (subst for_loop.simps) simp

lemma for_loop_returns: "\<exists>st'. for_loop st k = Inr st'"
proof (induction st k rule: for_loop.induct)
  case (1 st index)
  show ?case
  proof (cases "index < length (positions st)")
    case True
    then obtain st1 where st1: "recursiveCalcPos st index = Inr st1"
      using recursiveCalcPos_returns by blast
    with True "1.IH" [OF True st1] show ?thesis
      by (simp add: for_loop_step)
  next
    case False
    then show ?thesis by (simp add: for_loop_done)
  qed
qed

text \<open>A property that every call of the body keeps holds after the loop.\<close>

lemma for_loop_invariant:
  assumes step: "\<And>st i st'. P st \<Longrightarrow> i < length (positions st) \<Longrightarrow>
      recursiveCalcPos st i = Inr st' \<Longrightarrow> P st'"
  shows "P st \<Longrightarrow> for_loop st k = Inr st' \<Longrightarrow> P st'"
proof (induction st k rule: for_loop.induct)
  case (1 st index)
  show ?case
  proof (cases "index < length (positions st)")
    case True
    then obtain st1 where st1: "recursiveCalcPos st index = Inr st1"
      using recursiveCalcPos_returns by blast
    with "1.prems"(2) True have "for_loop st1 (index + 1) = Inr st'"
      by (simp add: for_loop_step)
    moreover have "P st1"
      using step [OF "1.prems"(1) True st1] .
    ultimately show ?thesis
      using "1.IH" [OF True st1] by simp
  next
    case False
    with "1.prems" show ?thesis by (simp add: for_loop_done)
  qed
qed

lemma for_loop_config:
  "for_loop st k = Inr st' \<Longrightarrow> map config (positions st') = map config (positions st)"
  by (rule for_loop_invariant
        [where P = "\<lambda>s. map config (positions s) = map config (positions st)"])
     (simp_all add: recursiveCalcPos_config)

lemma for_loop_visits:
  "for_loop st k = Inr st' \<Longrightarrow> j < length (positions st) \<Longrightarrow>
   k \<le> j \<or> truthy_at (visited st) j \<Longrightarrow> truthy_at (visited st') j"
proof (induction st k rule: for_loop.induct)
  case (1 st index)
  show ?case
  proof (cases "index < length (positions st)")
    case True
    then obtain st1 where st1: "recursiveCalcPos st index = Inr st1"
      using recursiveCalcPos_returns by blast
    with "1.prems"(1) True have loop: "for_loop st1 (index + 1) = Inr st'"
      by (simp add: for_loop_step)
    have "index + 1 \<le> j \<or> truthy_at (visited st1) j"
    proof (cases "j = index")
      case True
      then show ?thesis
        using recursiveCalcPos_marks [OF st1] by simp
    next
      case False
      with "1.prems"(3) show ?thesis
        using recursiveCalcPos_keeps_marks [OF st1, of j] by auto
    qed
    moreover have "j < length (positions st1)"
      using "1.prems"(2) recursiveCalcPos_length [OF st1] by simp
    ultimately show ?thesis
      using "1.IH" [OF True st1 loop] by simp
  next
    case False
    with "1.prems" show ?thesis by (auto simp: for_loop_done)
  qed
qed

subsection \<open>A whole pass\<close>

definition pass_start :: "position list \<Rightarrow> state" where
  "pass_start ps = \<lparr>positions = ps, visited = replicate (length ps) False\<rparr>"

lemma pass_start_simps [simp]:
  "positions (pass_start ps) = ps"
  "truthy_at (visited (pass_start ps)) j = False"
  by (simp_all add: pass_start_def truthy_at_def)

lemma calculateBattlePositions_loop:
  "calculateBattlePositions ps =
     (case for_loop (pass_start ps) 0 of Inl e \<Rightarrow> Inl e | Inr st \<Rightarrow> Inr (positions st))"
  by (simp add: calculateBattlePositions_def pass_start_def)

lemma calculateBattlePositions_end:
  assumes "calculateBattlePositions ps = Inr r"
  shows "\<exists>st. for_loop (pass_start ps) 0 = Inr st \<and> r = positions st \<and>
           (\<forall>j < length ps. truthy_at (visited st) j)"
proof -
  from assms obtain st where loop: "for_loop (pass_start ps) 0 = Inr st" and r: "r = positions st"
    by (auto simp: calculateBattlePositions_loop split: sum.splits)
  moreover have "truthy_at (visited st) j" if "j < length ps" for j
    using for_loop_visits [OF loop, of j] that by simp
  ultimately show ?thesis by blast
qed

lemma calculateBattlePositions_returns: "\<exists>r. calculateBattlePositions ps = Inr r"
proof -
  obtain st where "for_loop (pass_start ps) 0 = Inr st"
    using for_loop_returns by blast
  then show ?thesis
    by (simp add: calculateBattlePositions_loop)
qed

lemma calculateBattlePositions_config:
  assumes "calculateBattlePositions ps = Inr r"
  shows "map config r = map config ps"
proof -
  from assms obtain st where "for_loop (pass_start ps) 0 = Inr st" and "r = positions st"
    using calculateBattlePositions_end by blast
  then show ?thesis
    using for_loop_config [of "pass_start ps" 0 st] by simp
qed

lemma calculateBattlePositions_length:
  "calculateBattlePositions ps = Inr r \<Longrightarrow> length r = length ps"
  by (drule calculateBattlePositions_config) (rule map_eq_imp_length_eq)

text \<open>Every visited record with a valid chain is settled at the sums along its chain.\<close>

definition chains_settled :: "position list \<Rightarrow> state \<Rightarrow> bool" where
  "chains_settled c st =
     (map config (positions st) = map config c \<and>
      (\<forall>j d vx vy. truthy_at (visited st) j \<longrightarrow> anchored c j d vx vy \<longrightarrow>
         settled st j vx vy))"

lemma recursiveCalcPos_chains_settled:
  assumes inv: "chains_settled c st" and call: "recursiveCalcPos st i = Inr st'"
  shows "chains_settled c st'"
proof -
  from inv have cfg: "map config (positions st) = map config c"
    and old: "\<And>j d vx vy. truthy_at (visited st) j \<Longrightarrow> anchored c j d vx vy \<Longrightarrow>
        settled st j vx vy"
    by (simp_all add: chains_settled_def)
  have "settled st' j vx vy"
    if vis: "truthy_at (visited st') j" and anc: "anchored c j d vx vy" for j d vx vy
  proof (cases "truthy_at (visited st) j")
    case True
    then have "positions st' ! j = positions st ! j"
      using recursiveCalcPos_keeps_visited_record [OF call] by simp
    with old [OF True anc] show ?thesis
      by (simp add: settled_def)
  next
    case False
    have "rooted c i"
      using recursiveCalcPos_visits_chain [OF call cfg vis False] anc
      by (auto simp: rooted_iff_anchored)
    then obtain di vxi vyi where "anchored c i di vxi vyi"
      by (auto simp: rooted_iff_anchored)
    then obtain e wx wy where "anchored c j e wx wy" and "settled st' j wx wy"
      using recursiveCalcPos_settles [OF call cfg _ _ vis False] old by blast
    with anc show ?thesis
      using anchored_unique by blast
  qed
  then show ?thesis
    using recursiveCalcPos_config [OF call] cfg by (simp add: chains_settled_def)
qed

lemma calculateBattlePositions_anchored:
  assumes "calculateBattlePositions ps = Inr r" and "anchored ps j d vx vy"
  shows "realX (r ! j) = Num vx \<and> realY (r ! j) = Num vy"
proof -
  from assms(1) obtain st where loop: "for_loop (pass_start ps) 0 = Inr st"
    and r: "r = positions st" and all: "\<And>j. j < length ps \<Longrightarrow> truthy_at (visited st) j"
    using calculateBattlePositions_end by blast
  have "chains_settled ps (pass_start ps)"
    by (simp add: chains_settled_def)
  then have "chains_settled ps st"
    using loop by (rule for_loop_invariant [rotated]) (rule recursiveCalcPos_chains_settled)
  moreover have "truthy_at (visited st) j"
    using all anchored_inside [OF assms(2)] by simp
  ultimately have "settled st j vx vy"
    using assms(2) by (auto simp: chains_settled_def)
  then show ?thesis
    by (simp add: settled_def r)
qed

section \<open>The pass with a trace\<close>

text \<open>
  How often a record is visited or assigned is not visible in the final array. The
  following copy of \<open>recursiveCalcPos\<close> does the same steps and reports, next to the
  state, what it did: \<open>Visit i\<close> for \<open>visited[i] = true\<close> (line 187), \<open>SetRealX i\<close> and
  \<open>SetRealY i\<close> for the assignments to \<open>realX\<close> and \<open>realY\<close> of record \<open>i\<close> (lines 194,
  195, 201, 202), \<open>GetRealX i p v\<close> and \<open>GetRealY i p v\<close> for reading \<open>parent.realX\<close> and
  \<open>parent.realY\<close> on behalf of record \<open>i\<close>, where \<open>p\<close> is the index of the parent and \<open>v\<close>
  the value found there (lines 201, 202), all in the order of execution, and the number
  of activations of \<open>recursiveCalcPos\<close> that were nested at the deepest point of the call,
  itself included.
\<close>

datatype event =
  Visit nat | SetRealX nat | SetRealY nat | GetRealX nat nat jsval | GetRealY nat nat jsval

function recursiveCalcPos_traced :: "state \<Rightarrow> nat \<Rightarrow> error + state \<times> event list \<times> nat" where
  "recursiveCalcPos_traced st index =
     (if truthy_at (visited st) index then Inr (st, [], 1)
      else
        let st1 = st\<lparr>visited := assign_at (visited st) index True\<rparr> in
        if length (positions st1) \<le> index then Inl TypeError
        else
          let curr = positions st1 ! index;
              parentIdx = parentIndex curr
          in
            if parentIdx < 0 \<or> parentIdx \<ge> int (length (positions st1)) then
              Inr (st1\<lparr>positions := (positions st1)
                     [index := curr\<lparr>realX := Num (x curr), realY := Num (y curr)\<rparr>]\<rparr>,
                   [Visit index, SetRealX index, SetRealY index], 1)
            else
              (case recursiveCalcPos_traced st1 (nat parentIdx) of
                 Inl e \<Rightarrow> Inl e
               | Inr (st2, events, depth) \<Rightarrow>
                   let curr2 = positions st2 ! index;
                       parent = positions st2 ! nat parentIdx
                   in Inr (st2\<lparr>positions := (positions st2)
                        [index := curr2\<lparr>realX := js_add (Num (x curr2)) (realX parent),
                                        realY := js_add (Num (y curr2)) (realY parent)\<rparr>]\<rparr>,
                        Visit index # events @
                          [GetRealX index (nat parentIdx) (realX parent), SetRealX index,
                           GetRealY index (nat parentIdx) (realY parent), SetRealY index],
                        depth + 1)))"
  by pat_completeness auto
termination
proof (relation "measure (\<lambda>(st, index). card (unvisited st))")
  show "wf (measure (\<lambda>(st, index). card (unvisited st)))"
    by simp
next
  fix st :: state and index :: nat and st1 curr parentIdx
  assume "\<not> truthy_at (visited st) index"
    and "st1 = st\<lparr>visited := assign_at (visited st) index True\<rparr>"
    and "\<not> length (positions st1) \<le> index"
  then show "((st1, nat parentIdx), (st, index)) \<in> measure (\<lambda>(st, index). card (unvisited st))"
    using card_unvisited_mark [of index st] by simp
qed

declare recursiveCalcPos_traced.simps [simp del]

lemma recursiveCalcPos_traced_visited:
  "truthy_at (visited st) i \<Longrightarrow> recursiveCalcPos_traced st i = Inr (st, [], 1)"
  by (subst recursiveCalcPos_traced.simps) simp

lemma recursiveCalcPos_traced_outside:
  "\<not> truthy_at (visited st) i \<Longrightarrow> length (positions st) \<le> i \<Longrightarrow>
   recursiveCalcPos_traced st i = Inl TypeError"
  by (subst recursiveCalcPos_traced.simps) simp

lemma recursiveCalcPos_traced_root:
  "\<not> truthy_at (visited st) i \<Longrightarrow> i < length (positions st) \<Longrightarrow>
   \<not> has_parent (positions st) i \<Longrightarrow>
   recursiveCalcPos_traced st i =
     Inr (assign_real (mark st i) i (Num (x (positions st ! i))) (Num (y (positions st ! i))),
          [Visit i, SetRealX i, SetRealY i], 1)"
  by (subst recursiveCalcPos_traced.simps)
     (auto simp: has_parent_def mark_def assign_real_def Let_def)

lemma recursiveCalcPos_traced_child:
  "\<not> truthy_at (visited st) i \<Longrightarrow> i < length (positions st) \<Longrightarrow>
   has_parent (positions st) i \<Longrightarrow>
   recursiveCalcPos_traced st i =
     (case recursiveCalcPos_traced (mark st i) (parent_of (positions st) i) of
        Inl e \<Rightarrow> Inl e
      | Inr (st2, events, depth) \<Rightarrow>
          Inr (assign_real st2 i
                 (js_add (Num (x (positions st2 ! i)))
                    (realX (positions st2 ! parent_of (positions st) i)))
                 (js_add (Num (y (positions st2 ! i)))
                    (realY (positions st2 ! parent_of (positions st) i))),
               Visit i # events @
                 [GetRealX i (parent_of (positions st) i)
                    (realX (positions st2 ! parent_of (positions st) i)),
                  SetRealX i,
                  GetRealY i (parent_of (positions st) i)
                    (realY (positions st2 ! parent_of (positions st) i)),
                  SetRealY i],
               depth + 1))"
  by (subst recursiveCalcPos_traced.simps)
     (auto simp: has_parent_def parent_of_def mark_def assign_real_def Let_def
           split: sum.splits)

text \<open>Forgetting the trace gives \<open>recursiveCalcPos\<close>.\<close>

lemma recursiveCalcPos_traced_erase:
  "map_sum id fst (recursiveCalcPos_traced st i) = recursiveCalcPos st i"
proof (induction st i rule: recursiveCalcPos_cases_induct)
  case (visited st i)
  then show ?case
    by (simp add: recursiveCalcPos_traced_visited recursiveCalcPos_visited)
next
  case (outside st i)
  then show ?case
    by (simp add: recursiveCalcPos_traced_outside recursiveCalcPos_outside)
next
  case (root st i)
  then show ?case
    by (simp add: recursiveCalcPos_traced_root recursiveCalcPos_root)
next
  case (child st i)
  from child.IH [symmetric] child.hyps show ?case
    by (simp add: recursiveCalcPos_traced_child recursiveCalcPos_child
          split: sum.splits prod.splits)
qed

lemma recursiveCalcPos_traced_state:
  "recursiveCalcPos_traced st i = Inr (st', events, depth) \<Longrightarrow> recursiveCalcPos st i = Inr st'"
  using recursiveCalcPos_traced_erase [of st i] by simp

lemma recursiveCalcPos_traced_returns:
  "i < length (positions st) \<Longrightarrow>
   \<exists>st' events depth. recursiveCalcPos_traced st i = Inr (st', events, depth)"
  using recursiveCalcPos_returns [of i st] recursiveCalcPos_traced_erase [of st i]
  by (cases "recursiveCalcPos_traced st i") auto

fun event_index :: "event \<Rightarrow> nat" where
  "event_index (Visit i) = i"
| "event_index (SetRealX i) = i"
| "event_index (SetRealY i) = i"
| "event_index (GetRealX i p v) = i"
| "event_index (GetRealY i p v) = i"

fun is_read :: "event \<Rightarrow> bool" where
  "is_read (GetRealX i p v) = True"
| "is_read (GetRealY i p v) = True"
| "is_read _ = False"

definition newly_visited :: "state \<Rightarrow> state \<Rightarrow> nat \<Rightarrow> bool" where
  "newly_visited st st' j = (truthy_at (visited st') j \<and> \<not> truthy_at (visited st) j)"

lemma count_list_root_events:
  "\<not> is_read ev \<Longrightarrow>
   count_list [Visit i, SetRealX i, SetRealY i] ev = (if event_index ev = i then 1 else 0)"
  by (cases ev) auto

lemma count_list_child_events:
  "\<not> is_read ev \<Longrightarrow>
   count_list (Visit i # events @ [GetRealX i p vx, SetRealX i, GetRealY i p vy, SetRealY i]) ev =
     count_list events ev + (if event_index ev = i then 1 else 0)"
  by (cases ev) auto

text \<open>
  A call visits and assigns each record it newly marks exactly once, and no other; the
  nesting of calls is bounded by the number of records not yet visited.
\<close>

lemma recursiveCalcPos_traced_counts:
  "recursiveCalcPos_traced st i = Inr (st', events, depth) \<Longrightarrow> \<not> is_read ev \<Longrightarrow>
   count_list events ev = (if newly_visited st st' (event_index ev) then 1 else 0)"
proof (induction st i arbitrary: st' events depth rule: recursiveCalcPos_cases_induct)
  case (visited st i)
  then show ?case
    by (auto simp: recursiveCalcPos_traced_visited newly_visited_def)
next
  case (outside st i)
  then show ?case
    by (simp add: recursiveCalcPos_traced_outside)
next
  case (root st i)
  from root.prems root.hyps have "events = [Visit i, SetRealX i, SetRealY i]"
    and "newly_visited st st' (event_index ev) = (event_index ev = i)"
    by (auto simp: recursiveCalcPos_traced_root newly_visited_def)
  then show ?case
    by (simp only: count_list_root_events [OF root.prems(2)])
next
  case (child st i)
  let ?p = "parent_of (positions st) i"
  from child.prems(1) child.hyps obtain st2 events2 depth2 vx vy
    where st2: "recursiveCalcPos_traced (mark st i) ?p = Inr (st2, events2, depth2)"
      and vis: "visited st' = visited st2"
      and events: "events =
        Visit i # events2 @ [GetRealX i ?p vx, SetRealX i, GetRealY i ?p vy, SetRealY i]"
    by (auto simp: recursiveCalcPos_traced_child split: sum.splits)
  have marked: "truthy_at (visited st2) i"
    using recursiveCalcPos_keeps_marks [OF recursiveCalcPos_traced_state [OF st2], of i]
    by simp
  have "count_list events2 ev =
      (if newly_visited (mark st i) st2 (event_index ev) then 1 else 0)"
    using st2 child.prems(2) by (rule child.IH)
  moreover have "newly_visited st st' k = (k = i \<or> newly_visited (mark st i) st2 k)"
    and "\<not> newly_visited (mark st i) st2 i" for k
    using child.hyps(1) marked by (auto simp: newly_visited_def vis)
  ultimately show ?case
    by (simp only: events count_list_child_events [OF child.prems(2)]) auto
qed

lemma card_unvisited_le: "card (unvisited st) \<le> length (positions st)"
proof -
  have "unvisited st \<subseteq> {..<length (positions st)}"
    by (auto simp: unvisited_def)
  then have "card (unvisited st) \<le> card {..<length (positions st)}"
    by (intro card_mono) simp_all
  then show ?thesis by simp
qed

lemma recursiveCalcPos_traced_depth:
  "recursiveCalcPos_traced st i = Inr (st', events, depth) \<Longrightarrow>
   depth \<le> card (unvisited st) + 1"
proof (induction st i arbitrary: st' events depth rule: recursiveCalcPos_cases_induct)
  case (visited st i)
  then show ?case
    by (simp add: recursiveCalcPos_traced_visited)
next
  case (outside st i)
  then show ?case
    by (simp add: recursiveCalcPos_traced_outside)
next
  case (root st i)
  then show ?case
    by (auto simp: recursiveCalcPos_traced_root)
next
  case (child st i)
  let ?p = "parent_of (positions st) i"
  from child.prems child.hyps obtain st2 events2 depth2
    where st2: "recursiveCalcPos_traced (mark st i) ?p = Inr (st2, events2, depth2)"
      and depth: "depth = depth2 + 1"
    by (auto simp: recursiveCalcPos_traced_child split: sum.splits)
  have "depth2 \<le> card (unvisited (mark st i)) + 1"
    using st2 by (rule child.IH)
  moreover have "card (unvisited (mark st i)) < card (unvisited st)"
    unfolding mark_def using child.hyps(2,1) by (rule card_unvisited_mark)
  ultimately show ?case
    by (simp add: depth)
qed

text \<open>The loop and the pass, with the trace.\<close>

function for_loop_traced :: "state \<Rightarrow> nat \<Rightarrow> error + state \<times> event list \<times> nat" where
  "for_loop_traced st index =
     (if index < length (positions st) then
        (case recursiveCalcPos_traced st index of
           Inl e \<Rightarrow> Inl e
         | Inr (st', events, depth) \<Rightarrow>
             (case for_loop_traced st' (index + 1) of
                Inl e \<Rightarrow> Inl e
              | Inr (st'', events', depth') \<Rightarrow>
                  Inr (st'', events @ events', max depth depth')))
      else Inr (st, [], 0))"
  by pat_completeness auto
termination
proof (relation "measure (\<lambda>(st, index). length (positions st) - index)")
  show "wf (measure (\<lambda>(st, index). length (positions st) - index))"
    by simp
next
  fix st :: state and index :: nat and res st' rest events depth
  assume "index < length (positions st)"
    and "recursiveCalcPos_traced st index = Inr res"
    and "(st', rest) = res" and "(events, depth) = rest"
  then have "recursiveCalcPos st index = Inr st'"
    using recursiveCalcPos_traced_state [of st index st' events depth] by simp
  with \<open>index < length (positions st)\<close>
  show "((st', index + 1), (st, index))
      \<in> measure (\<lambda>(st, index). length (positions st) - index)"
    using recursiveCalcPos_length [of st index st'] by simp
qed

declare for_loop_traced.simps [simp del]

definition calculateBattlePositions_traced ::
  "position list \<Rightarrow> error + position list \<times> event list \<times> nat" where
  "calculateBattlePositions_traced ps =
     (let visited0 = replicate (length ps) False in
      case for_loop_traced \<lparr>positions = ps, visited = visited0\<rparr> 0 of
        Inl e \<Rightarrow> Inl e
      | Inr (st, events, depth) \<Rightarrow> Inr (positions st, events, depth))"

lemma for_loop_traced_done:
  "length (positions st) \<le> k \<Longrightarrow> for_loop_traced st k = Inr (st, [], 0)"
  by (subst for_loop_traced.simps) simp

lemma for_loop_traced_step:
  "k < length (positions st) \<Longrightarrow>
   for_loop_traced st k =
     (case recursiveCalcPos_traced st k of
        Inl e \<Rightarrow> Inl e
      | Inr (st', events, depth) \<Rightarrow>
          (case for_loop_traced st' (k + 1) of
             Inl e \<Rightarrow> Inl e
           | Inr (st'', events', depth') \<Rightarrow>
               Inr (st'', events @ events', max depth depth')))"
  by (subst for_loop_traced.simps) simp

lemma for_loop_traced_step_Inr:
  assumes "k < length (positions st)"
    and "recursiveCalcPos_traced st k = Inr (st1, events1, depth1)"
  shows "for_loop_traced st k =
     (case for_loop_traced st1 (k + 1) of
        Inl e \<Rightarrow> Inl e
      | Inr (st'', events', depth') \<Rightarrow> Inr (st'', events1 @ events', max depth1 depth'))"
  using assms by (simp add: for_loop_traced_step)

lemma for_loop_step_Inr:
  assumes "k < length (positions st)" and "recursiveCalcPos st k = Inr st1"
  shows "for_loop st k = for_loop st1 (k + 1)"
  using assms by (simp add: for_loop_step)

lemma for_loop_traced_erase: "map_sum id fst (for_loop_traced st k) = for_loop st k"
proof (induction st k rule: for_loop.induct)
  case (1 st index)
  show ?case
  proof (cases "index < length (positions st)")
    case True
    then obtain st1 events depth
      where t: "recursiveCalcPos_traced st index = Inr (st1, events, depth)"
      using recursiveCalcPos_traced_returns by blast
    then have p: "recursiveCalcPos st index = Inr st1"
      by (rule recursiveCalcPos_traced_state)
    have IH: "map_sum id fst (for_loop_traced st1 (index + 1)) = for_loop st1 (index + 1)"
      using True p by (rule "1.IH")
    show ?thesis
    proof (cases "for_loop_traced st1 (index + 1)")
      case (Inl e)
      with IH show ?thesis
        by (simp add: for_loop_traced_step_Inr [OF True t] for_loop_step_Inr [OF True p])
    next
      case (Inr res)
      obtain st2 events2 depth2 where "res = (st2, events2, depth2)"
        by (cases res) auto
      with Inr IH show ?thesis
        by (simp add: for_loop_traced_step_Inr [OF True t] for_loop_step_Inr [OF True p])
    qed
  next
    case False
    then show ?thesis
      by (simp add: for_loop_traced_done for_loop_done)
  qed
qed

lemma for_loop_traced_state:
  "for_loop_traced st k = Inr (st', events, depth) \<Longrightarrow> for_loop st k = Inr st'"
  using for_loop_traced_erase [of st k] by simp

lemma for_loop_keeps_marks:
  "for_loop st k = Inr st' \<Longrightarrow> truthy_at (visited st) j \<Longrightarrow> truthy_at (visited st') j"
  by (rule for_loop_invariant [where P = "\<lambda>s. truthy_at (visited s) j"])
     (simp_all add: recursiveCalcPos_keeps_marks)

lemma for_loop_traced_counts:
  "for_loop_traced st k = Inr (st', events, depth) \<Longrightarrow> \<not> is_read ev \<Longrightarrow>
   count_list events ev = (if newly_visited st st' (event_index ev) then 1 else 0) \<and>
   depth \<le> length (positions st) + 1"
proof (induction st k arbitrary: st' events depth rule: for_loop.induct)
  case (1 st index)
  show ?case
  proof (cases "index < length (positions st)")
    case True
    then obtain st1 events1 depth1
      where t: "recursiveCalcPos_traced st index = Inr (st1, events1, depth1)"
      using recursiveCalcPos_traced_returns by blast
    then have p: "recursiveCalcPos st index = Inr st1"
      by (rule recursiveCalcPos_traced_state)
    have "\<exists>events2 depth2. for_loop_traced st1 (index + 1) = Inr (st', events2, depth2) \<and>
        events = events1 @ events2 \<and> depth = max depth1 depth2"
    proof (cases "for_loop_traced st1 (index + 1)")
      case (Inl e)
      with "1.prems" show ?thesis
        by (simp add: for_loop_traced_step_Inr [OF True t])
    next
      case (Inr res)
      obtain st2 events2 depth2 where "res = (st2, events2, depth2)"
        by (cases res) auto
      with Inr "1.prems" show ?thesis
        by (simp add: for_loop_traced_step_Inr [OF True t])
    qed
    then obtain events2 depth2
      where loop: "for_loop_traced st1 (index + 1) = Inr (st', events2, depth2)"
        and events: "events = events1 @ events2" and depth: "depth = max depth1 depth2"
      by blast
    have c1: "count_list events1 ev = (if newly_visited st st1 (event_index ev) then 1 else 0)"
      using t "1.prems"(2) by (rule recursiveCalcPos_traced_counts)
    have d1: "depth1 \<le> length (positions st) + 1"
      using recursiveCalcPos_traced_depth [OF t] card_unvisited_le [of st] by simp
    have c2: "count_list events2 ev = (if newly_visited st1 st' (event_index ev) then 1 else 0)"
      and d2: "depth2 \<le> length (positions st1) + 1"
      using "1.IH" [OF True p loop "1.prems"(2)] by simp_all
    have mono1: "truthy_at (visited st) (event_index ev) \<Longrightarrow>
        truthy_at (visited st1) (event_index ev)"
      using recursiveCalcPos_keeps_marks [OF p] .
    have mono2: "truthy_at (visited st1) (event_index ev) \<Longrightarrow>
        truthy_at (visited st') (event_index ev)"
      using for_loop_keeps_marks [OF for_loop_traced_state [OF loop]] .
    have "count_list events ev = count_list events1 ev + count_list events2 ev"
      by (simp add: events)
    also have "\<dots> = (if newly_visited st st' (event_index ev) then 1 else 0)"
    proof (cases "truthy_at (visited st1) (event_index ev)")
      case True
      with mono2 show ?thesis
        by (simp add: c1 c2 newly_visited_def)
    next
      case False
      with mono1 show ?thesis
        by (auto simp: c1 c2 newly_visited_def)
    qed
    finally have "count_list events ev =
        (if newly_visited st st' (event_index ev) then 1 else 0)" .
    moreover have "depth \<le> length (positions st) + 1"
      using d1 d2 recursiveCalcPos_length [OF p] by (simp add: depth)
    ultimately show ?thesis ..
  next
    case False
    with "1.prems" show ?thesis
      by (auto simp: for_loop_traced_done newly_visited_def)
  qed
qed

lemma for_loop_marks_inside:
  assumes "for_loop st k = Inr st'"
    and "\<And>j. truthy_at (visited st) j \<Longrightarrow> j < length (positions st)"
    and "truthy_at (visited st') j"
  shows "j < length (positions st)"
proof -
  let ?P = "\<lambda>s. length (positions s) = length (positions st) \<and>
      (\<forall>j. truthy_at (visited s) j \<longrightarrow> j < length (positions st))"
  have "?P st'"
  proof (rule for_loop_invariant [where P = ?P, OF _ _ assms(1)])
    show "?P st" using assms(2) by simp
  next
    fix s i s'
    assume "?P s" and "i < length (positions s)" and "recursiveCalcPos s i = Inr s'"
    then show "?P s'"
      using recursiveCalcPos_length [of s i s'] recursiveCalcPos_marks_inside [of s i s']
      by metis
  qed
  with assms(3) show ?thesis by simp
qed

lemma calculateBattlePositions_traced_loop:
  "calculateBattlePositions_traced ps =
     (case for_loop_traced (pass_start ps) 0 of
        Inl e \<Rightarrow> Inl e
      | Inr (st, events, depth) \<Rightarrow> Inr (positions st, events, depth))"
  by (simp add: calculateBattlePositions_traced_def pass_start_def)

lemma calculateBattlePositions_traced_erase:
  "map_sum id fst (calculateBattlePositions_traced ps) = calculateBattlePositions ps"
proof (cases "for_loop_traced (pass_start ps) 0")
  case (Inl e)
  then have "for_loop (pass_start ps) 0 = Inl e"
    using for_loop_traced_erase [of "pass_start ps" 0] by simp
  with Inl show ?thesis
    by (simp add: calculateBattlePositions_traced_loop calculateBattlePositions_loop)
next
  case (Inr res)
  then obtain st events depth where res: "res = (st, events, depth)"
    by (cases res) auto
  with Inr have "for_loop (pass_start ps) 0 = Inr st"
    using for_loop_traced_erase [of "pass_start ps" 0] by simp
  with Inr res show ?thesis
    by (simp add: calculateBattlePositions_traced_loop calculateBattlePositions_loop)
qed

text \<open>
  What a whole pass does: it returns, its final array is that of
  \<open>calculateBattlePositions\<close>, every record of the array is visited once and has each
  derived field assigned once, nothing else is visited or assigned, and at most one more
  activation than there are records is ever nested.
\<close>

lemma calculateBattlePositions_traced_summary:
  "\<exists>r events depth.
     calculateBattlePositions_traced ps = Inr (r, events, depth) \<and>
     calculateBattlePositions ps = Inr r \<and>
     (\<forall>ev. \<not> is_read ev \<longrightarrow>
        count_list events ev = (if event_index ev < length ps then 1 else 0)) \<and>
     depth \<le> length ps + 1"
proof -
  obtain st where loop: "for_loop (pass_start ps) 0 = Inr st"
    using for_loop_returns by blast
  then obtain events depth where t: "for_loop_traced (pass_start ps) 0 = Inr (st, events, depth)"
    using for_loop_traced_erase [of "pass_start ps" 0]
    by (cases "for_loop_traced (pass_start ps) 0") auto
  have "truthy_at (visited st) j = (j < length ps)" for j
    using for_loop_visits [OF loop, of j] for_loop_marks_inside [OF loop, of j] by auto
  then have "newly_visited (pass_start ps) st j = (j < length ps)" for j
    by (simp add: newly_visited_def)
  with for_loop_traced_counts [OF t]
  have "\<forall>ev. \<not> is_read ev \<longrightarrow>
      count_list events ev = (if event_index ev < length ps then 1 else 0)"
    and "depth \<le> length ps + 1"
    using for_loop_traced_counts [OF t, of "Visit 0"] by simp_all
  moreover have "calculateBattlePositions_traced ps = Inr (positions st, events, depth)"
    using t by (simp add: calculateBattlePositions_traced_loop)
  moreover have "calculateBattlePositions ps = Inr (positions st)"
    using loop by (simp add: calculateBattlePositions_loop)
  ultimately show ?thesis by blast
qed

section \<open>Passes that start without stale numbers\<close>

definition cycles_nan :: "position list \<Rightarrow> state \<Rightarrow> bool" where
  "cycles_nan c st =
     (map config (positions st) = map config c \<and> stale_free c (positions st) \<and>
      (\<forall>j. truthy_at (visited st) j \<longrightarrow> j < length c \<longrightarrow> \<not> rooted c j \<longrightarrow>
         realX (positions st ! j) = NaN \<and> realY (positions st ! j) = NaN))"

lemma recursiveCalcPos_cycles_nan:
  assumes inv: "cycles_nan c st" and call: "recursiveCalcPos st i = Inr st'"
  shows "cycles_nan c st'"
proof -
  from inv have cfg: "map config (positions st) = map config c"
    and sf: "stale_free c (positions st)"
    and old: "\<And>j. truthy_at (visited st) j \<Longrightarrow> j < length c \<Longrightarrow> \<not> rooted c j \<Longrightarrow>
        realX (positions st ! j) = NaN \<and> realY (positions st ! j) = NaN"
    by (simp_all add: cycles_nan_def)
  note new = recursiveCalcPos_stale_free [OF call cfg sf]
  have "realX (positions st' ! j) = NaN \<and> realY (positions st' ! j) = NaN"
    if vis: "truthy_at (visited st') j" and j: "j < length c" "\<not> rooted c j" for j
  proof (cases "truthy_at (visited st) j")
    case True
    then have "positions st' ! j = positions st ! j"
      using recursiveCalcPos_keeps_visited_record [OF call] by simp
    with old [OF True j] show ?thesis by simp
  next
    case False
    with new vis j(2) show ?thesis by blast
  qed
  moreover have "map config (positions st') = map config c"
    using recursiveCalcPos_config [OF call] cfg by simp
  ultimately show ?thesis
    using new by (simp add: cycles_nan_def)
qed

lemma calculateBattlePositions_cycles_nan:
  assumes "calculateBattlePositions ps = Inr r" and "stale_free ps ps"
    and "j < length ps" and "\<not> rooted ps j"
  shows "realX (r ! j) = NaN \<and> realY (r ! j) = NaN"
proof -
  from assms(1) obtain st where loop: "for_loop (pass_start ps) 0 = Inr st"
    and r: "r = positions st" and all: "\<And>j. j < length ps \<Longrightarrow> truthy_at (visited st) j"
    using calculateBattlePositions_end by blast
  have "cycles_nan ps (pass_start ps)"
    using assms(2) by (simp add: cycles_nan_def)
  then have "cycles_nan ps st"
    using loop by (rule for_loop_invariant [rotated]) (rule recursiveCalcPos_cycles_nan)
  with all [OF assms(3)] assms(3,4) show ?thesis
    by (simp add: cycles_nan_def r)
qed

lemma stale_free_loadPositions: "stale_free (loadPositions cs) (loadPositions cs)"
  by (auto simp: stale_free_def loadPositions_def fresh_def split: prod.splits)

text \<open>
  After a pass that started without stale numbers, a derived field is a number exactly
  for the records with a valid chain; so the next pass starts without stale numbers too.
\<close>

lemma calculateBattlePositions_stale_free:
  assumes "calculateBattlePositions ps = Inr r" and "stale_free ps ps"
  shows "stale_free r r"
proof -
  have cfg: "map config r = map config ps"
    using assms(1) by (rule calculateBattlePositions_config)
  then have len: "length r = length ps"
    by (rule map_eq_imp_length_eq)
  have "\<not> is_num (realX (r ! j)) \<and> \<not> is_num (realY (r ! j))"
    if "j < length r" and "\<not> rooted r j" for j
  proof -
    from that have "j < length ps" and "\<not> rooted ps j"
      using len rooted_config [OF cfg] by simp_all
    then have "realX (r ! j) = NaN \<and> realY (r ! j) = NaN"
      using calculateBattlePositions_cycles_nan [OF assms] by simp
    then show ?thesis by simp
  qed
  then show ?thesis
    by (simp add: stale_free_def)
qed

text \<open>
  The result of a pass that started without stale numbers depends on the configured
  fields only.
\<close>

lemma calculateBattlePositions_determined:
  assumes "calculateBattlePositions ps = Inr r" and "stale_free ps ps"
    and "calculateBattlePositions ps' = Inr r'" and "stale_free ps' ps'"
    and "map config ps' = map config ps"
  shows "r' = r"
proof (rule nth_equalityI)
  have cfg: "map config r = map config ps" and cfg': "map config r' = map config ps'"
    using assms(1,3) by (simp_all add: calculateBattlePositions_config)
  have len: "length r = length ps"
    using cfg by (rule map_eq_imp_length_eq)
  have len': "length r' = length ps'"
    using cfg' by (rule map_eq_imp_length_eq)
  have lens: "length ps' = length ps"
    using assms(5) by (rule map_eq_imp_length_eq)
  show "length r' = length r"
    using len len' lens by simp
  fix j
  assume "j < length r'"
  then have j: "j < length ps" and j': "j < length ps'"
    using len' lens by simp_all
  have same: "parentIndex (r' ! j) = parentIndex (r ! j)"
    "x (r' ! j) = x (r ! j)" "y (r' ! j) = y (r ! j)"
    using config_nth [OF cfg j] config_nth [OF cfg' j'] config_nth [OF assms(5) j]
    by simp_all
  have "realX (r' ! j) = realX (r ! j) \<and> realY (r' ! j) = realY (r ! j)"
  proof (cases "rooted ps j")
    case True
    then obtain d vx vy where chain: "anchored ps j d vx vy"
      by (auto simp: rooted_iff_anchored)
    then have "anchored ps' j d vx vy"
      using anchored_config [OF assms(5)] by simp
    then show ?thesis
      using calculateBattlePositions_anchored [OF assms(1) chain]
        calculateBattlePositions_anchored [OF assms(3)] by simp
  next
    case False
    then have "\<not> rooted ps' j"
      using rooted_config [OF assms(5)] by simp
    with False show ?thesis
      using calculateBattlePositions_cycles_nan [OF assms(1,2) j]
        calculateBattlePositions_cycles_nan [OF assms(3,4) j'] by simp
  qed
  with same show "r' ! j = r ! j"
    by (intro position.equality) simp_all
qed

text \<open>
  After a pass that started without stale numbers, every record with a parent holds its
  own offset plus what its parent holds. For a record without a valid chain both sides
  are \<open>NaN\<close>.
\<close>

lemma calculateBattlePositions_parent_relation:
  assumes "calculateBattlePositions ps = Inr r" and "stale_free ps ps"
    and "i < length ps" and "has_parent ps i"
  shows "realX (r ! i) = js_add (Num (x (r ! i))) (realX (r ! parent_of ps i)) \<and>
         realY (r ! i) = js_add (Num (y (r ! i))) (realY (r ! parent_of ps i))"
proof (cases "rooted ps i")
  case True
  then obtain d vx vy where chain: "anchored ps i d vx vy"
    by (auto simp: rooted_iff_anchored)
  with assms(4) obtain d0 vx0 vy0 where up: "anchored ps (parent_of ps i) d0 vx0 vy0"
    and vx: "vx = x (ps ! i) + vx0" and vy: "vy = y (ps ! i) + vy0"
    using anchored_child_inv by blast
  have "x (r ! i) = x (ps ! i)" and "y (r ! i) = y (ps ! i)"
    using config_nth [OF calculateBattlePositions_config [OF assms(1)] assms(3)] by simp_all
  then show ?thesis
    using calculateBattlePositions_anchored [OF assms(1) chain]
      calculateBattlePositions_anchored [OF assms(1) up]
    by (simp add: vx vy)
next
  case False
  then have "\<not> rooted ps (parent_of ps i)"
    using rooted_child_iff [OF assms(3,4)] by simp
  moreover have "parent_of ps i < length ps"
    using assms(4) by (rule has_parent_inside)
  ultimately show ?thesis
    using calculateBattlePositions_cycles_nan [OF assms(1,2) assms(3) False]
      calculateBattlePositions_cycles_nan [OF assms(1,2), of "parent_of ps i"]
    by simp
qed

section \<open>The call stack\<close>

text \<open>
  \<open>recursiveCalcPos\<close> calls itself at line 199 and continues after the call, so every
  nested call occupies the engine's call stack, which is finite: a call that finds no room
  throws a \<open>RangeError\<close>, which nothing in the plugin catches. The functions above leave the
  stack out; they describe the passes that run to their end. The following copy of the
  pass has the stack: \<open>free\<close> is the number of activations of \<open>recursiveCalcPos\<close> the stack
  still admits. How many it admits when \<open>calculateBattlePositions\<close> runs its loop depends
  on the engine; it is the parameter \<open>limit\<close> of the pass.
\<close>

fun recursiveCalcPos_stack :: "nat \<Rightarrow> state \<Rightarrow> nat \<Rightarrow> error + state" where
  "recursiveCalcPos_stack 0 st index = Inl RangeError"
| "recursiveCalcPos_stack (Suc free) st index =
     (if truthy_at (visited st) index then Inr st
      else
        let st1 = st\<lparr>visited := assign_at (visited st) index True\<rparr> in
        if length (positions st1) \<le> index then Inl TypeError
        else
          let curr = positions st1 ! index;
              parentIdx = parentIndex curr
          in
            if parentIdx < 0 \<or> parentIdx \<ge> int (length (positions st1)) then
              Inr (st1\<lparr>positions := (positions st1)
                     [index := curr\<lparr>realX := Num (x curr), realY := Num (y curr)\<rparr>]\<rparr>)
            else
              (case recursiveCalcPos_stack free st1 (nat parentIdx) of
                 Inl e \<Rightarrow> Inl e
               | Inr st2 \<Rightarrow>
                   let curr2 = positions st2 ! index;
                       parent = positions st2 ! nat parentIdx
                   in Inr (st2\<lparr>positions := (positions st2)
                        [index := curr2\<lparr>realX := js_add (Num (x curr2)) (realX parent),
                                        realY := js_add (Num (y curr2)) (realY parent)\<rparr>]\<rparr>)))"

declare recursiveCalcPos_stack.simps(2) [simp del]

lemma recursiveCalcPos_stack_visited:
  "truthy_at (visited st) i \<Longrightarrow> recursiveCalcPos_stack (Suc free) st i = Inr st"
  by (subst recursiveCalcPos_stack.simps) simp

lemma recursiveCalcPos_stack_outside:
  "\<not> truthy_at (visited st) i \<Longrightarrow> length (positions st) \<le> i \<Longrightarrow>
   recursiveCalcPos_stack (Suc free) st i = Inl TypeError"
  by (subst recursiveCalcPos_stack.simps) simp

lemma recursiveCalcPos_stack_root:
  "\<not> truthy_at (visited st) i \<Longrightarrow> i < length (positions st) \<Longrightarrow>
   \<not> has_parent (positions st) i \<Longrightarrow>
   recursiveCalcPos_stack (Suc free) st i =
     Inr (assign_real (mark st i) i (Num (x (positions st ! i))) (Num (y (positions st ! i))))"
  by (subst recursiveCalcPos_stack.simps)
     (auto simp: has_parent_def mark_def assign_real_def Let_def)

lemma recursiveCalcPos_stack_child:
  "\<not> truthy_at (visited st) i \<Longrightarrow> i < length (positions st) \<Longrightarrow>
   has_parent (positions st) i \<Longrightarrow>
   recursiveCalcPos_stack (Suc free) st i =
     (case recursiveCalcPos_stack free (mark st i) (parent_of (positions st) i) of
        Inl e \<Rightarrow> Inl e
      | Inr st2 \<Rightarrow>
          Inr (assign_real st2 i
                 (js_add (Num (x (positions st2 ! i)))
                    (realX (positions st2 ! parent_of (positions st) i)))
                 (js_add (Num (y (positions st2 ! i)))
                    (realY (positions st2 ! parent_of (positions st) i)))))"
  by (subst recursiveCalcPos_stack.simps)
     (auto simp: has_parent_def parent_of_def mark_def assign_real_def Let_def
           split: sum.splits)

text \<open>
  A call that the pass without the stack completes with \<open>depth\<close> nested activations
  completes in the same state when the stack admits \<open>depth\<close> activations, and throws
  \<open>RangeError\<close> when it does not.
\<close>

lemma recursiveCalcPos_stack_depth:
  "recursiveCalcPos_traced st i = Inr (st', events, depth) \<Longrightarrow>
   recursiveCalcPos_stack free st i = (if depth \<le> free then Inr st' else Inl RangeError)"
proof (induction st i arbitrary: st' events depth free rule: recursiveCalcPos_cases_induct)
  case (visited st i)
  then show ?case
    by (cases free) (simp_all add: recursiveCalcPos_traced_visited recursiveCalcPos_stack_visited)
next
  case (outside st i)
  then show ?case
    by (simp add: recursiveCalcPos_traced_outside)
next
  case (root st i)
  then show ?case
    by (cases free) (auto simp: recursiveCalcPos_traced_root recursiveCalcPos_stack_root)
next
  case (child st i)
  let ?p = "parent_of (positions st) i"
  from child.prems child.hyps obtain st2 events2 depth2
    where st2: "recursiveCalcPos_traced (mark st i) ?p = Inr (st2, events2, depth2)"
      and st': "st' = assign_real st2 i
                 (js_add (Num (x (positions st2 ! i))) (realX (positions st2 ! ?p)))
                 (js_add (Num (y (positions st2 ! i))) (realY (positions st2 ! ?p)))"
      and depth: "depth = depth2 + 1"
    by (auto simp: recursiveCalcPos_traced_child split: sum.splits)
  show ?case
  proof (cases free)
    case 0
    then show ?thesis by (simp add: depth)
  next
    case (Suc free')
    have "recursiveCalcPos_stack free' (mark st i) ?p =
        (if depth2 \<le> free' then Inr st2 else Inl RangeError)"
      using st2 by (rule child.IH)
    then show ?thesis
      using child.hyps by (simp add: Suc depth st' recursiveCalcPos_stack_child)
  qed
qed

lemma recursiveCalcPos_stack_state:
  assumes "i < length (positions st)" and "recursiveCalcPos_stack free st i = Inr st'"
  shows "recursiveCalcPos st i = Inr st'"
proof -
  obtain s events depth where t: "recursiveCalcPos_traced st i = Inr (s, events, depth)"
    using recursiveCalcPos_traced_returns [OF assms(1)] by blast
  with assms(2) have "s = st'"
    using recursiveCalcPos_stack_depth [OF t, of free] by (simp split: if_splits)
  with t show ?thesis
    using recursiveCalcPos_traced_state by simp
qed

function for_loop_stack :: "nat \<Rightarrow> state \<Rightarrow> nat \<Rightarrow> error + state" where
  "for_loop_stack limit st index =
     (if index < length (positions st) then
        (case recursiveCalcPos_stack limit st index of
           Inl e \<Rightarrow> Inl e
         | Inr st' \<Rightarrow> for_loop_stack limit st' (index + 1))
      else Inr st)"
  by pat_completeness auto
termination
proof (relation "measure (\<lambda>(limit, st, index). length (positions st) - index)")
  show "wf (measure (\<lambda>(limit, st, index). length (positions st) - index))"
    by simp
next
  fix limit :: nat and st :: state and index :: nat and st'
  assume "index < length (positions st)" and "recursiveCalcPos_stack limit st index = Inr st'"
  then have "recursiveCalcPos st index = Inr st'"
    by (rule recursiveCalcPos_stack_state)
  with \<open>index < length (positions st)\<close>
  show "((limit, st', index + 1), (limit, st, index))
      \<in> measure (\<lambda>(limit, st, index). length (positions st) - index)"
    using recursiveCalcPos_length [of st index st'] by simp
qed

declare for_loop_stack.simps [simp del]

definition calculateBattlePositions_stack :: "nat \<Rightarrow> position list \<Rightarrow> error + position list" where
  "calculateBattlePositions_stack limit ps =
     (let visited0 = replicate (length ps) False in
      case for_loop_stack limit \<lparr>positions = ps, visited = visited0\<rparr> 0 of
        Inl e \<Rightarrow> Inl e
      | Inr st \<Rightarrow> Inr (positions st))"

lemma for_loop_stack_done:
  "length (positions st) \<le> k \<Longrightarrow> for_loop_stack limit st k = Inr st"
  by (subst for_loop_stack.simps) simp

lemma for_loop_stack_step:
  "k < length (positions st) \<Longrightarrow>
   for_loop_stack limit st k =
     (case recursiveCalcPos_stack limit st k of
        Inl e \<Rightarrow> Inl e
      | Inr st' \<Rightarrow> for_loop_stack limit st' (k + 1))"
  by (subst for_loop_stack.simps) simp

lemma for_loop_stack_depth:
  "for_loop_traced st k = Inr (st', events, depth) \<Longrightarrow>
   for_loop_stack limit st k = (if depth \<le> limit then Inr st' else Inl RangeError)"
proof (induction st k arbitrary: st' events depth rule: for_loop.induct)
  case (1 st index)
  show ?case
  proof (cases "index < length (positions st)")
    case True
    then obtain st1 events1 depth1
      where t: "recursiveCalcPos_traced st index = Inr (st1, events1, depth1)"
      using recursiveCalcPos_traced_returns by blast
    then have p: "recursiveCalcPos st index = Inr st1"
      by (rule recursiveCalcPos_traced_state)
    have "\<exists>events2 depth2. for_loop_traced st1 (index + 1) = Inr (st', events2, depth2) \<and>
        depth = max depth1 depth2"
    proof (cases "for_loop_traced st1 (index + 1)")
      case (Inl e)
      with "1.prems" show ?thesis
        by (simp add: for_loop_traced_step_Inr [OF True t])
    next
      case (Inr res)
      obtain st2 events2 depth2 where "res = (st2, events2, depth2)"
        by (cases res) auto
      with Inr "1.prems" show ?thesis
        by (simp add: for_loop_traced_step_Inr [OF True t])
    qed
    then obtain events2 depth2
      where loop: "for_loop_traced st1 (index + 1) = Inr (st', events2, depth2)"
        and depth: "depth = max depth1 depth2"
      by blast
    have call: "recursiveCalcPos_stack limit st index =
        (if depth1 \<le> limit then Inr st1 else Inl RangeError)"
      using t by (rule recursiveCalcPos_stack_depth)
    have rest: "for_loop_stack limit st1 (index + 1) =
        (if depth2 \<le> limit then Inr st' else Inl RangeError)"
      using True p loop by (rule "1.IH")
    show ?thesis
      using True call rest by (simp add: for_loop_stack_step depth)
  next
    case False
    with "1.prems" show ?thesis
      by (simp add: for_loop_traced_done for_loop_stack_done)
  qed
qed

lemma calculateBattlePositions_stack_depth:
  assumes "calculateBattlePositions_traced ps = Inr (r, events, depth)"
  shows "calculateBattlePositions_stack limit ps =
    (if depth \<le> limit then Inr r else Inl RangeError)"
proof -
  from assms obtain st where "for_loop_traced (pass_start ps) 0 = Inr (st, events, depth)"
    and "r = positions st"
    by (auto simp: calculateBattlePositions_traced_loop split: sum.splits)
  then show ?thesis
    using for_loop_stack_depth [of "pass_start ps" 0 st events depth limit]
    by (simp add: calculateBattlePositions_stack_def pass_start_def)
qed

text \<open>
  A configuration that needs as many nested activations as it has records: record \<open>k\<close>
  names record \<open>k + 1\<close> as its parent, and the last record has no parent.
\<close>

definition deep_chain :: "nat \<Rightarrow> position list" where
  "deep_chain n = loadPositions (map (\<lambda>k. (int k + 1, 0, 0)) [0..<n])"

lemma deep_chain_simps:
  "length (deep_chain n) = n"
  "k < n \<Longrightarrow> parentIndex (deep_chain n ! k) = int k + 1"
  by (simp_all add: deep_chain_def loadPositions_def fresh_def)

lemma recursiveCalcPos_stack_deep_chain:
  assumes "positions st = deep_chain n"
    and "\<And>j. k \<le> j \<Longrightarrow> \<not> truthy_at (visited st) j"
    and "k + free < n"
  shows "recursiveCalcPos_stack free st k = Inl RangeError"
  using assms
proof (induction free arbitrary: st k)
  case 0
  then show ?case by simp
next
  case (Suc free)
  have unseen: "\<not> truthy_at (visited st) k"
    using Suc.prems(2) by simp
  have inside: "k < length (positions st)"
    using Suc.prems(1,3) by (simp add: deep_chain_simps)
  have parent: "has_parent (positions st) k" and up: "parent_of (positions st) k = Suc k"
    using Suc.prems(1,3) by (simp_all add: has_parent_def parent_of_def deep_chain_simps)
  have "recursiveCalcPos_stack free (mark st k) (Suc k) = Inl RangeError"
    using Suc.prems by (intro Suc.IH) simp_all
  then show ?case
    using unseen inside parent by (simp add: recursiveCalcPos_stack_child up)
qed

text \<open>Whatever the stack admits, the chain with one record more exhausts it.\<close>

lemma deep_chain_exhausts_stack:
  "calculateBattlePositions_stack limit (deep_chain (Suc limit)) = Inl RangeError"
proof -
  have "recursiveCalcPos_stack limit (pass_start (deep_chain (Suc limit))) 0 = Inl RangeError"
    by (rule recursiveCalcPos_stack_deep_chain [where n = "Suc limit"]) simp_all
  then have "for_loop_stack limit (pass_start (deep_chain (Suc limit))) 0 = Inl RangeError"
    by (simp add: for_loop_stack_step deep_chain_simps)
  then show ?thesis
    by (simp add: calculateBattlePositions_stack_def pass_start_def)
qed

section \<open>Reading the parent\<close>

text \<open>
  The reads made on behalf of record \<open>i\<close>, and a check of a trace: every read made on
  behalf of a record in \<open>want\<close> finds a parent whose \<open>realX\<close> and \<open>realY\<close> have already been
  assigned, either before the trace (\<open>AX\<close>, \<open>AY\<close>) or earlier in it.
\<close>

fun reads_by :: "nat \<Rightarrow> event \<Rightarrow> bool" where
  "reads_by i (GetRealX k p v) = (k = i)"
| "reads_by i (GetRealY k p v) = (k = i)"
| "reads_by i _ = False"

fun reads_after :: "(nat \<Rightarrow> bool) \<Rightarrow> nat set \<Rightarrow> nat set \<Rightarrow> event list \<Rightarrow> bool" where
  "reads_after want AX AY [] = True"
| "reads_after want AX AY (Visit i # es) = reads_after want AX AY es"
| "reads_after want AX AY (SetRealX i # es) = reads_after want (insert i AX) AY es"
| "reads_after want AX AY (SetRealY i # es) = reads_after want AX (insert i AY) es"
| "reads_after want AX AY (GetRealX i p v # es) =
     ((want i \<longrightarrow> p \<in> AX \<and> p \<in> AY) \<and> reads_after want AX AY es)"
| "reads_after want AX AY (GetRealY i p v # es) =
     ((want i \<longrightarrow> p \<in> AX \<and> p \<in> AY) \<and> reads_after want AX AY es)"

definition assigned_x :: "event list \<Rightarrow> nat set" where
  "assigned_x es = {i. SetRealX i \<in> set es}"

definition assigned_y :: "event list \<Rightarrow> nat set" where
  "assigned_y es = {i. SetRealY i \<in> set es}"

lemma assigned_Cons:
  "assigned_x (ev # es) = (case ev of SetRealX i \<Rightarrow> insert i (assigned_x es) | _ \<Rightarrow> assigned_x es)"
  "assigned_y (ev # es) = (case ev of SetRealY i \<Rightarrow> insert i (assigned_y es) | _ \<Rightarrow> assigned_y es)"
  by (auto simp: assigned_x_def assigned_y_def split: event.splits)

lemma assigned_append:
  "assigned_x (es @ es') = assigned_x es \<union> assigned_x es'"
  "assigned_y (es @ es') = assigned_y es \<union> assigned_y es'"
  by (auto simp: assigned_x_def assigned_y_def)

lemma reads_after_append:
  "reads_after want AX AY (es @ es') \<longleftrightarrow>
     reads_after want AX AY es \<and>
     reads_after want (AX \<union> assigned_x es) (AY \<union> assigned_y es) es'"
proof (induction es arbitrary: AX AY)
  case Nil
  then show ?case by (simp add: assigned_x_def assigned_y_def)
next
  case (Cons ev es)
  show ?case
    by (cases ev) (auto simp: Cons.IH assigned_Cons insert_commute Un_insert_left Un_insert_right)
qed

lemma reads_after_mono:
  "reads_after want AX AY es \<Longrightarrow> AX \<subseteq> AX' \<Longrightarrow> AY \<subseteq> AY' \<Longrightarrow>
   (\<And>i. want' i \<Longrightarrow> want i) \<Longrightarrow> reads_after want' AX' AY' es"
proof (induction es arbitrary: AX AY AX' AY')
  case Nil
  then show ?case by simp
next
  case (Cons ev es)
  show ?case
  proof (cases ev)
    case (Visit i)
    with Cons.prems show ?thesis
      using Cons.IH [of AX AY AX' AY'] by simp
  next
    case (SetRealX i)
    with Cons.prems show ?thesis
      using Cons.IH [of "insert i AX" AY "insert i AX'" AY'] by auto
  next
    case (SetRealY i)
    with Cons.prems show ?thesis
      using Cons.IH [of AX "insert i AY" AX' "insert i AY'"] by auto
  next
    case (GetRealX i p v)
    with Cons.prems show ?thesis
      using Cons.IH [of AX AY AX' AY'] by auto
  next
    case (GetRealY i p v)
    with Cons.prems show ?thesis
      using Cons.IH [of AX AY AX' AY'] by auto
  qed
qed

lemma reads_after_unwanted:
  "(\<And>ev. ev \<in> set es \<Longrightarrow> is_read ev \<Longrightarrow> \<not> want (event_index ev)) \<Longrightarrow>
   reads_after want AX AY es"
proof (induction es arbitrary: AX AY)
  case Nil
  then show ?case by simp
next
  case (Cons ev es)
  have "reads_after want AX' AY' es" for AX' AY'
    using Cons.prems by (intro Cons.IH) simp_all
  moreover have "is_read ev \<Longrightarrow> \<not> want (event_index ev)"
    using Cons.prems by simp
  ultimately show ?case
    by (cases ev) simp_all
qed

text \<open>
  In a checked trace, the parent read first on behalf of a wanted record has both
  assignments before that read.
\<close>

lemma reads_after_first_read:
  assumes "reads_after want AX AY es" and "want i"
    and "filter (reads_by i) es = GetRealX i p v # rest"
  shows "(p \<in> AX \<or> SetRealX p \<in> set (takeWhile (\<lambda>ev. \<not> reads_by i ev) es)) \<and>
         (p \<in> AY \<or> SetRealY p \<in> set (takeWhile (\<lambda>ev. \<not> reads_by i ev) es))"
  using assms
proof (induction es arbitrary: AX AY)
  case Nil
  then show ?case by simp
next
  case (Cons ev es)
  show ?case
  proof (cases "reads_by i ev")
    case True
    with Cons.prems(3) have "ev = GetRealX i p v"
      by simp
    with Cons.prems(1,2) show ?thesis by simp
  next
    case False
    with Cons.prems(3) have rest: "filter (reads_by i) es = GetRealX i p v # rest"
      by simp
    show ?thesis
    proof (cases ev)
      case (Visit k)
      with Cons.prems(1) have "reads_after want AX AY es" by simp
      from Cons.IH [OF this Cons.prems(2) rest] False show ?thesis by auto
    next
      case (SetRealX k)
      with Cons.prems(1) have "reads_after want (insert k AX) AY es" by simp
      from Cons.IH [OF this Cons.prems(2) rest] False SetRealX show ?thesis by auto
    next
      case (SetRealY k)
      with Cons.prems(1) have "reads_after want AX (insert k AY) es" by simp
      from Cons.IH [OF this Cons.prems(2) rest] False SetRealY show ?thesis by auto
    next
      case (GetRealX k q w)
      with Cons.prems(1) have "reads_after want AX AY es" by simp
      from Cons.IH [OF this Cons.prems(2) rest] False show ?thesis by auto
    next
      case (GetRealY k q w)
      with Cons.prems(1) have "reads_after want AX AY es" by simp
      from Cons.IH [OF this Cons.prems(2) rest] False show ?thesis by auto
    qed
  qed
qed

text \<open>
  A call reads the parent on behalf of exactly the records it newly marks that have a
  parent: for each of them first \<open>realX\<close>, then \<open>realY\<close> of its parent.
\<close>

lemma recursiveCalcPos_traced_reads_by:
  "recursiveCalcPos_traced st i = Inr (st', events, depth) \<Longrightarrow>
   \<exists>vx vy. filter (reads_by k) events =
     (if newly_visited st st' k \<and> has_parent (positions st) k
      then [GetRealX k (parent_of (positions st) k) vx,
            GetRealY k (parent_of (positions st) k) vy]
      else [])"
proof (induction st i arbitrary: st' events depth rule: recursiveCalcPos_cases_induct)
  case (visited st i)
  then show ?case
    by (auto simp: recursiveCalcPos_traced_visited newly_visited_def)
next
  case (outside st i)
  then show ?case
    by (simp add: recursiveCalcPos_traced_outside)
next
  case (root st i)
  from root.prems root.hyps have "events = [Visit i, SetRealX i, SetRealY i]"
    and "newly_visited st st' k = (k = i)"
    by (auto simp: recursiveCalcPos_traced_root newly_visited_def)
  with root.hyps(3) show ?case by auto
next
  case (child st i)
  let ?p = "parent_of (positions st) i"
  from child.prems(1) child.hyps obtain st2 events2 depth2 a b
    where st2: "recursiveCalcPos_traced (mark st i) ?p = Inr (st2, events2, depth2)"
      and vis: "visited st' = visited st2"
      and events: "events =
        Visit i # events2 @ [GetRealX i ?p a, SetRealX i, GetRealY i ?p b, SetRealY i]"
    by (auto simp: recursiveCalcPos_traced_child split: sum.splits)
  have marked: "truthy_at (visited st2) i"
    using recursiveCalcPos_keeps_marks [OF recursiveCalcPos_traced_state [OF st2], of i]
    by simp
  have new: "newly_visited st st' k = (k = i \<or> newly_visited (mark st i) st2 k)"
    and self: "\<not> newly_visited (mark st i) st2 i"
    using child.hyps(1) marked by (auto simp: newly_visited_def vis)
  from child.IH [OF st2, unfolded positions_mark] obtain vx vy where nested: "filter (reads_by k) events2 =
     (if newly_visited (mark st i) st2 k \<and> has_parent (positions st) k
      then [GetRealX k (parent_of (positions st) k) vx,
            GetRealY k (parent_of (positions st) k) vy]
      else [])"
    by blast
  show ?case
  proof (cases "k = i")
    case True
    with nested self have "filter (reads_by k) events2 = []"
      by simp
    with True have "filter (reads_by k) events = [GetRealX k ?p a, GetRealY k ?p b]"
      by (simp add: events)
    with True new child.hyps(3) show ?thesis by auto
  next
    case False
    then have "filter (reads_by k) events = filter (reads_by k) events2"
      by (simp add: events)
    with False new nested show ?thesis by auto
  qed
qed

lemma count_list_one_member: "count_list es ev = 1 \<Longrightarrow> ev \<in> set es"
  by (metis count_notin zero_neq_one)

lemma reads_by_event_index: "is_read ev \<Longrightarrow> reads_by (event_index ev) ev"
  by (cases ev) simp_all

lemma recursiveCalcPos_traced_reader_new:
  assumes "recursiveCalcPos_traced st i = Inr (st', events, depth)"
    and "ev \<in> set events" and "is_read ev"
  shows "newly_visited st st' (event_index ev)"
proof -
  have "reads_by (event_index ev) ev"
    using assms(3) by (rule reads_by_event_index)
  with assms(2) have "filter (reads_by (event_index ev)) events \<noteq> []"
    unfolding filter_empty_conv by blast
  then show ?thesis
    using recursiveCalcPos_traced_reads_by [OF assms(1), of "event_index ev"]
    by (auto split: if_splits)
qed

text \<open>
  The values a read may find: for a parent with a valid chain, the sums along its chain.
\<close>

definition reads_sums :: "position list \<Rightarrow> event \<Rightarrow> bool" where
  "reads_sums c ev =
     (case ev of
        GetRealX k p v \<Rightarrow> \<exists>e wx wy. anchored c p e wx wy \<and> v = Num wx
      | GetRealY k p v \<Rightarrow> \<exists>e wx wy. anchored c p e wx wy \<and> v = Num wy
      | _ \<Rightarrow> True)"

text \<open>
  A call for a record with a valid chain of \<open>d\<close> links, made when every visited record
  with a chain of at most \<open>d\<close> links is settled and has had both assignments, reads only
  parents that have had both assignments, and finds the sums along their chains.
\<close>

lemma recursiveCalcPos_traced_reads_settled:
  assumes "recursiveCalcPos_traced st i = Inr (st', events, depth)"
    and "map config (positions st) = map config c"
    and "anchored c i d vx vy"
    and "\<And>j e wx wy. truthy_at (visited st) j \<Longrightarrow> anchored c j e wx wy \<Longrightarrow> e \<le> d \<Longrightarrow>
           settled st j wx wy \<and> j \<in> AX \<and> j \<in> AY"
  shows "reads_after (\<lambda>k. True) AX AY events \<and> (\<forall>ev \<in> set events. reads_sums c ev)"
  using assms
proof (induction st i arbitrary: st' events depth d vx vy rule: recursiveCalcPos_cases_induct)
  case (visited st i)
  then show ?case by (simp add: recursiveCalcPos_traced_visited)
next
  case (outside st i)
  then show ?case by (simp add: recursiveCalcPos_traced_outside)
next
  case (root st i)
  then have "events = [Visit i, SetRealX i, SetRealY i]"
    by (auto simp: recursiveCalcPos_traced_root)
  then show ?case by (simp add: reads_sums_def)
next
  case (child st i)
  let ?p = "parent_of (positions st) i"
  have len: "length (positions st) = length c"
    using child.prems(2) by (rule map_eq_imp_length_eq)
  have hp: "has_parent c i" and p: "parent_of c i = ?p"
    using child.hyps config_has_parent [OF child.prems(2)] len by simp_all
  from child.prems(3) hp obtain d0 vx0 vy0
    where up: "anchored c ?p d0 vx0 vy0" and d: "d = Suc d0"
    using anchored_child_inv p by metis
  from child.prems(1) child.hyps obtain st2 events2 depth2
    where st2: "recursiveCalcPos_traced (mark st i) ?p = Inr (st2, events2, depth2)"
      and events: "events = Visit i # events2 @
        [GetRealX i ?p (realX (positions st2 ! ?p)), SetRealX i,
         GetRealY i ?p (realY (positions st2 ! ?p)), SetRealY i]"
    by (auto simp: recursiveCalcPos_traced_child split: sum.splits)
  have call2: "recursiveCalcPos (mark st i) ?p = Inr st2"
    using st2 by (rule recursiveCalcPos_traced_state)
  have before: "settled (mark st i) k wx wy \<and> k \<in> AX \<and> k \<in> AY"
    if "truthy_at (visited (mark st i)) k" and "anchored c k e wx wy" and "e \<le> d0"
    for k e wx wy
  proof -
    have "k \<noteq> i"
    proof
      assume "k = i"
      with that(2) child.prems(3) have "e = d"
        using anchored_unique by blast
      with that(3) d show False by simp
    qed
    with that(1) have "truthy_at (visited st) k" by simp
    with that(2,3) d show ?thesis
      using child.prems(4) [of k e wx wy] by simp
  qed
  have nested: "reads_after (\<lambda>k. True) AX AY events2 \<and> (\<forall>ev \<in> set events2. reads_sums c ev)"
    using child.IH [OF st2 _ up before] child.prems(2) by simp
  have parent: "settled st2 ?p vx0 vy0 \<and>
      ?p \<in> AX \<union> assigned_x events2 \<and> ?p \<in> AY \<union> assigned_y events2"
  proof (cases "truthy_at (visited (mark st i)) ?p")
    case True
    then have "settled (mark st i) ?p vx0 vy0 \<and> ?p \<in> AX \<and> ?p \<in> AY"
      using before [OF _ up] by simp
    moreover have "positions st2 ! ?p = positions (mark st i) ! ?p"
      using recursiveCalcPos_keeps_visited_record [OF call2 True] .
    ultimately show ?thesis by (simp add: settled_def)
  next
    case False
    have marked: "truthy_at (visited st2) ?p"
      using call2 by (rule recursiveCalcPos_marks)
    have "\<And>j e wx wy. truthy_at (visited (mark st i)) j \<Longrightarrow> anchored c j e wx wy \<Longrightarrow>
        e \<le> d0 \<Longrightarrow> settled (mark st i) j wx wy"
      using before by blast
    then obtain e wx wy where "anchored c ?p e wx wy" and "settled st2 ?p wx wy"
      using recursiveCalcPos_settles [OF call2 _ up _ marked False] child.prems(2)
      by auto
    with up have "settled st2 ?p vx0 vy0"
      using anchored_unique by blast
    moreover have "newly_visited (mark st i) st2 ?p"
      using marked False by (simp add: newly_visited_def)
    then have "count_list events2 (SetRealX ?p) = 1" and "count_list events2 (SetRealY ?p) = 1"
      using recursiveCalcPos_traced_counts [OF st2] by simp_all
    then have "SetRealX ?p \<in> set events2" and "SetRealY ?p \<in> set events2"
      by (simp_all add: count_list_one_member)
    ultimately show ?thesis
      by (simp add: assigned_x_def assigned_y_def)
  qed
  let ?tail = "[GetRealX i ?p (realX (positions st2 ! ?p)), SetRealX i,
         GetRealY i ?p (realY (positions st2 ! ?p)), SetRealY i]"
  have "reads_after (\<lambda>k. True) (AX \<union> assigned_x events2) (AY \<union> assigned_y events2) ?tail"
    using parent by simp
  with nested have "reads_after (\<lambda>k. True) AX AY events"
    by (simp add: events reads_after_append)
  moreover have sums: "\<exists>e wx wy. anchored c ?p e wx wy \<and> realX (positions st2 ! ?p) = Num wx"
    "\<exists>e wx wy. anchored c ?p e wx wy \<and> realY (positions st2 ! ?p) = Num wy"
    using parent up unfolding settled_def by blast+
  have "reads_sums c (GetRealX i ?p (realX (positions st2 ! ?p)))"
    and "reads_sums c (GetRealY i ?p (realY (positions st2 ! ?p)))"
    and "reads_sums c (SetRealX i)" and "reads_sums c (SetRealY i)"
    and "reads_sums c (Visit i)"
    using sums by (simp_all add: reads_sums_def)
  then have "reads_sums c ev" if "ev \<in> set (Visit i # ?tail)" for ev
    using that by auto
  then have "\<forall>ev \<in> set events. reads_sums c ev"
    using nested by (auto simp: events)
  ultimately show ?case ..
qed

lemma for_loop_traced_step_cases:
  assumes "k < length (positions st)"
    and "for_loop_traced st k = Inr (st', events, depth)"
  obtains st1 events1 depth1 events2 depth2
  where "recursiveCalcPos_traced st k = Inr (st1, events1, depth1)"
    and "for_loop_traced st1 (k + 1) = Inr (st', events2, depth2)"
    and "events = events1 @ events2" and "depth = max depth1 depth2"
proof -
  obtain st1 events1 depth1
    where t: "recursiveCalcPos_traced st k = Inr (st1, events1, depth1)"
    using recursiveCalcPos_traced_returns [OF assms(1)] by blast
  have "\<exists>events2 depth2. for_loop_traced st1 (k + 1) = Inr (st', events2, depth2) \<and>
      events = events1 @ events2 \<and> depth = max depth1 depth2"
  proof (cases "for_loop_traced st1 (k + 1)")
    case (Inl e)
    with assms(2) show ?thesis
      by (simp add: for_loop_traced_step_Inr [OF assms(1) t])
  next
    case (Inr res)
    obtain st2 events2 depth2 where "res = (st2, events2, depth2)"
      by (cases res) auto
    with Inr assms(2) show ?thesis
      by (simp add: for_loop_traced_step_Inr [OF assms(1) t])
  qed
  with t that show ?thesis by blast
qed

lemma for_loop_traced_reads_by:
  "for_loop_traced st k0 = Inr (st', events, depth) \<Longrightarrow>
   map config (positions st) = map config c \<Longrightarrow>
   \<exists>vx vy. filter (reads_by k) events =
     (if newly_visited st st' k \<and> has_parent c k
      then [GetRealX k (parent_of c k) vx, GetRealY k (parent_of c k) vy]
      else [])"
proof (induction st k0 arbitrary: st' events depth rule: for_loop.induct)
  case (1 st index)
  show ?case
  proof (cases "index < length (positions st)")
    case False
    with "1.prems" show ?thesis
      by (auto simp: for_loop_traced_done newly_visited_def)
  next
    case True
    from True "1.prems"(1) obtain st1 events1 depth1 events2 depth2
      where t: "recursiveCalcPos_traced st index = Inr (st1, events1, depth1)"
        and loop: "for_loop_traced st1 (index + 1) = Inr (st', events2, depth2)"
        and events: "events = events1 @ events2"
      by (rule for_loop_traced_step_cases)
    have p: "recursiveCalcPos st index = Inr st1"
      using t by (rule recursiveCalcPos_traced_state)
    have cfg1: "map config (positions st1) = map config c"
      using recursiveCalcPos_config [OF p] "1.prems"(2) by simp
    have len: "length (positions st) = length c"
      using "1.prems"(2) by (rule map_eq_imp_length_eq)
    obtain ax ay where first: "filter (reads_by k) events1 =
       (if newly_visited st st1 k \<and> has_parent (positions st) k
        then [GetRealX k (parent_of (positions st) k) ax,
              GetRealY k (parent_of (positions st) k) ay]
        else [])"
      using recursiveCalcPos_traced_reads_by [OF t, of k] by blast
    obtain bx bz where rest: "filter (reads_by k) events2 =
       (if newly_visited st1 st' k \<and> has_parent c k
        then [GetRealX k (parent_of c k) bx, GetRealY k (parent_of c k) bz]
        else [])"
      using "1.IH" [OF True p loop cfg1] by blast
    have mono1: "truthy_at (visited st) k \<Longrightarrow> truthy_at (visited st1) k"
      using recursiveCalcPos_keeps_marks [OF p] .
    have mono2: "truthy_at (visited st1) k \<Longrightarrow> truthy_at (visited st') k"
      using for_loop_keeps_marks [OF for_loop_traced_state [OF loop]] .
    show ?thesis
    proof (cases "newly_visited st st1 k")
      case new: True
      then have "k < length (positions st)"
        using recursiveCalcPos_marks_inside [OF p, of k] by (simp add: newly_visited_def)
      then have "has_parent (positions st) k = has_parent c k"
        and "parent_of (positions st) k = parent_of c k"
        using config_has_parent [OF "1.prems"(2), of k] len by simp_all
      moreover have "\<not> newly_visited st1 st' k" and "newly_visited st st' k"
        using new mono2 by (simp_all add: newly_visited_def)
      ultimately show ?thesis
        using first rest new by (auto simp: events)
    next
      case old: False
      then have "newly_visited st st' k = newly_visited st1 st' k"
        using mono1 by (auto simp: newly_visited_def)
      with old first rest show ?thesis
        by (auto simp: events)
    qed
  qed
qed

text \<open>
  Through the whole loop: the reads made on behalf of records with a valid chain find
  parents that have had both assignments, holding the sums along their chains.
\<close>

lemma for_loop_traced_reads_settled:
  "for_loop_traced st k0 = Inr (st', events, depth) \<Longrightarrow>
   chains_settled c st \<Longrightarrow>
   (\<And>j. truthy_at (visited st) j \<Longrightarrow> rooted c j \<Longrightarrow> j \<in> AX \<and> j \<in> AY) \<Longrightarrow>
   reads_after (rooted c) AX AY events \<and>
   (\<forall>ev \<in> set events. is_read ev \<longrightarrow> rooted c (event_index ev) \<longrightarrow> reads_sums c ev)"
proof (induction st k0 arbitrary: st' events depth AX AY rule: for_loop.induct)
  case (1 st index)
  show ?case
  proof (cases "index < length (positions st)")
    case False
    with "1.prems"(1) show ?thesis
      by (simp add: for_loop_traced_done)
  next
    case True
    from True "1.prems"(1) obtain st1 events1 depth1 events2 depth2
      where t: "recursiveCalcPos_traced st index = Inr (st1, events1, depth1)"
        and loop: "for_loop_traced st1 (index + 1) = Inr (st', events2, depth2)"
        and events: "events = events1 @ events2"
      by (rule for_loop_traced_step_cases)
    have p: "recursiveCalcPos st index = Inr st1"
      using t by (rule recursiveCalcPos_traced_state)
    from "1.prems"(2) have cfg: "map config (positions st) = map config c"
      and old: "\<And>j d vx vy. truthy_at (visited st) j \<Longrightarrow> anchored c j d vx vy \<Longrightarrow>
          settled st j vx vy"
      by (simp_all add: chains_settled_def)
    have call: "reads_after (rooted c) AX AY events1 \<and>
      (\<forall>ev \<in> set events1. is_read ev \<longrightarrow> rooted c (event_index ev) \<longrightarrow> reads_sums c ev)"
    proof (cases "rooted c index")
      case True
      then obtain d vx vy where chain: "anchored c index d vx vy"
        by (auto simp: rooted_iff_anchored)
      have "settled st j wx wy \<and> j \<in> AX \<and> j \<in> AY"
        if "truthy_at (visited st) j" and "anchored c j e wx wy" for j e wx wy
        using that old [OF that] "1.prems"(3) [of j] by (auto simp: rooted_iff_anchored)
      then have "reads_after (\<lambda>k. True) AX AY events1 \<and> (\<forall>ev \<in> set events1. reads_sums c ev)"
        using recursiveCalcPos_traced_reads_settled [OF t cfg chain, of AX AY] by blast
      then show ?thesis
        using reads_after_mono [of "\<lambda>k. True" AX AY events1 AX AY "rooted c"] by auto
    next
      case False
      have unwanted: "\<not> rooted c (event_index ev)"
        if "ev \<in> set events1" and "is_read ev" for ev
      proof
        assume "rooted c (event_index ev)"
        moreover have "newly_visited st st1 (event_index ev)"
          using t that by (rule recursiveCalcPos_traced_reader_new)
        ultimately have "rooted c index"
          using recursiveCalcPos_visits_chain [OF p cfg, of "event_index ev"]
          by (simp add: newly_visited_def)
        with False show False by simp
      qed
      then have "reads_after (rooted c) AX AY events1"
        by (intro reads_after_unwanted) blast
      with unwanted show ?thesis by blast
    qed
    have inv1: "chains_settled c st1"
      using "1.prems"(2) p by (rule recursiveCalcPos_chains_settled)
    have assigned1: "j \<in> AX \<union> assigned_x events1 \<and> j \<in> AY \<union> assigned_y events1"
      if "truthy_at (visited st1) j" and "rooted c j" for j
    proof (cases "truthy_at (visited st) j")
      case True
      with that(2) show ?thesis
        using "1.prems"(3) [of j] by simp
    next
      case False
      with that(1) have "newly_visited st st1 j"
        by (simp add: newly_visited_def)
      then have "count_list events1 (SetRealX j) = 1" and "count_list events1 (SetRealY j) = 1"
        using recursiveCalcPos_traced_counts [OF t] by simp_all
      then show ?thesis
        by (simp add: assigned_x_def assigned_y_def count_list_one_member)
    qed
    have rest: "reads_after (rooted c) (AX \<union> assigned_x events1) (AY \<union> assigned_y events1) events2 \<and>
      (\<forall>ev \<in> set events2. is_read ev \<longrightarrow> rooted c (event_index ev) \<longrightarrow> reads_sums c ev)"
      using True p loop inv1 assigned1 by (rule "1.IH")
    from call rest show ?thesis
      by (auto simp: events reads_after_append)
  qed
qed

text \<open>
  Record \<open>i\<close> is computed from the resolved position of its parent \<open>p\<close> when the reads
  made on its behalf are exactly one of \<open>realX\<close> and one of \<open>realY\<close> of \<open>p\<close>, both assignments
  to \<open>p\<close> come before the first of them, and they find what \<open>p\<close> holds at the end of the
  pass.
\<close>

definition reads_resolved_parent :: "event list \<Rightarrow> position list \<Rightarrow> nat \<Rightarrow> nat \<Rightarrow> bool" where
  "reads_resolved_parent events r i p =
     (filter (reads_by i) events =
        [GetRealX i p (realX (r ! p)), GetRealY i p (realY (r ! p))] \<and>
      SetRealX p \<in> set (takeWhile (\<lambda>ev. \<not> reads_by i ev) events) \<and>
      SetRealY p \<in> set (takeWhile (\<lambda>ev. \<not> reads_by i ev) events))"

lemma calculateBattlePositions_traced_parent_reads:
  assumes t: "calculateBattlePositions_traced ps = Inr (r, events, depth)"
    and i: "i < length ps" and parent: "has_parent ps i" and chain: "rooted ps i"
  shows "reads_resolved_parent events r i (parent_of ps i)"
proof -
  let ?p = "parent_of ps i"
  from t obtain st where loop: "for_loop_traced (pass_start ps) 0 = Inr (st, events, depth)"
    and r: "r = positions st"
    by (auto simp: calculateBattlePositions_traced_loop split: sum.splits)
  have plain: "for_loop (pass_start ps) 0 = Inr st"
    using loop by (rule for_loop_traced_state)
  have pass: "calculateBattlePositions ps = Inr r"
    using plain r by (simp add: calculateBattlePositions_loop)
  have "truthy_at (visited st) i"
    using for_loop_visits [OF plain, of i] i by simp
  then have new: "newly_visited (pass_start ps) st i"
    by (simp add: newly_visited_def)
  obtain vx vy where reads: "filter (reads_by i) events = [GetRealX i ?p vx, GetRealY i ?p vy]"
    using for_loop_traced_reads_by [OF loop, of ps i] new parent by auto
  then have "GetRealX i ?p vx \<in> set (filter (reads_by i) events)"
    and "GetRealY i ?p vy \<in> set (filter (reads_by i) events)"
    by simp_all
  then have members: "GetRealX i ?p vx \<in> set events" "GetRealY i ?p vy \<in> set events"
    by simp_all
  have "chains_settled ps (pass_start ps)"
    by (simp add: chains_settled_def)
  then have checked: "reads_after (rooted ps) {} {} events"
    and sums: "\<forall>ev \<in> set events. is_read ev \<longrightarrow> rooted ps (event_index ev) \<longrightarrow> reads_sums ps ev"
    using for_loop_traced_reads_settled [OF loop, of ps "{}" "{}"] by simp_all
  from sums members chain have "reads_sums ps (GetRealX i ?p vx)"
    and "reads_sums ps (GetRealY i ?p vy)"
    by fastforce+
  then obtain e wx wy e' wx' wy'
    where a: "anchored ps ?p e wx wy" and vx: "vx = Num wx"
      and a': "anchored ps ?p e' wx' wy'" and vy: "vy = Num wy'"
    by (auto simp: reads_sums_def)
  have "vx = realX (r ! ?p)" and "vy = realY (r ! ?p)"
    using calculateBattlePositions_anchored [OF pass a]
      calculateBattlePositions_anchored [OF pass a'] vx vy by simp_all
  moreover have "SetRealX ?p \<in> set (takeWhile (\<lambda>ev. \<not> reads_by i ev) events) \<and>
      SetRealY ?p \<in> set (takeWhile (\<lambda>ev. \<not> reads_by i ev) events)"
    using reads_after_first_read [OF checked chain reads] by simp
  ultimately show ?thesis
    using reads by (simp add: reads_resolved_parent_def)
qed

section \<open>The claims\<close>

text \<open>
  C1 (the code differs). With two records that name each other as parent, as the plugin
  parameters give them, a full pass leaves \<open>NaN\<close> in both derived fields of both records:
  record 0 is marked visited, the call for its parent 1 calls back for record 0 and
  returns at once, record 1 adds its offset to the \<open>undefined\<close> fields of record 0, and
  record 0 adds its offset to the \<open>NaN\<close> of record 1. A record that is its own parent adds
  its offset to its own \<open>undefined\<close> fields. In neither case does the record reached first
  end with its own \<open>x\<close> and \<open>y\<close>.
\<close>

theorem mutual_parents_resolve_to_NaN:
  "calculateBattlePositions (loadPositions [(1, 10, 20), (0, 1, 2)]) =
     Inr [\<lparr>parentIndex = 1, x = 10, y = 20, realX = NaN, realY = NaN\<rparr>,
          \<lparr>parentIndex = 0, x = 1, y = 2, realX = NaN, realY = NaN\<rparr>]
   \<and> calculateBattlePositions (loadPositions [(0, 10, 10)]) =
     Inr [\<lparr>parentIndex = 0, x = 10, y = 10, realX = NaN, realY = NaN\<rparr>]"
  by code_simp

text \<open>
  C2. A record with a valid, non-cyclic parent chain that has a parent has, after a full
  pass, \<open>realX\<close> equal to its own \<open>x\<close> plus the \<open>realX\<close> of its parent, and \<open>realY\<close> equal to
  its own \<open>y\<close> plus the \<open>realY\<close> of its parent; both are numbers, and the parent has a
  valid, non-cyclic chain again, so the same holds for it, down to the root.
\<close>

theorem valid_chain_adds_parent_position:
  assumes "calculateBattlePositions ps = Inr r"
    and "rooted ps i"
    and "has_parent ps i"
  shows "realX (r ! i) = js_add (Num (x (r ! i))) (realX (r ! parent_of ps i)) \<and>
         realY (r ! i) = js_add (Num (y (r ! i))) (realY (r ! parent_of ps i)) \<and>
         is_num (realX (r ! i)) \<and> is_num (realY (r ! i)) \<and>
         rooted ps (parent_of ps i)"
proof -
  have i: "i < length ps"
    using assms(2) by (rule rooted_inside)
  from assms(2) obtain d vx vy where chain: "anchored ps i d vx vy"
    by (auto simp: rooted_iff_anchored)
  with assms(3) obtain d0 vx0 vy0 where up: "anchored ps (parent_of ps i) d0 vx0 vy0"
    and vx: "vx = x (ps ! i) + vx0" and vy: "vy = y (ps ! i) + vy0"
    using anchored_child_inv by blast
  have "realX (r ! i) = Num vx \<and> realY (r ! i) = Num vy"
    using assms(1) chain by (rule calculateBattlePositions_anchored)
  moreover have "realX (r ! parent_of ps i) = Num vx0 \<and> realY (r ! parent_of ps i) = Num vy0"
    using assms(1) up by (rule calculateBattlePositions_anchored)
  moreover have "x (r ! i) = x (ps ! i)" and "y (r ! i) = y (ps ! i)"
    using config_nth [OF calculateBattlePositions_config [OF assms(1)] i] by simp_all
  moreover have "rooted ps (parent_of ps i)"
    using up by (auto simp: rooted_iff_anchored)
  ultimately show ?thesis
    by (simp add: vx vy)
qed

theorem valid_chain_adds_parent_position_witness:
  "calculateBattlePositions
     (loadPositions [(-1, 600, 280), (0, 32, 48), (1, 32, 48), (2, 32, 48)]) =
   Inr [\<lparr>parentIndex = -1, x = 600, y = 280, realX = Num 600, realY = Num 280\<rparr>,
        \<lparr>parentIndex = 0, x = 32, y = 48, realX = Num 632, realY = Num 328\<rparr>,
        \<lparr>parentIndex = 1, x = 32, y = 48, realX = Num 664, realY = Num 376\<rparr>,
        \<lparr>parentIndex = 2, x = 32, y = 48, realX = Num 696, realY = Num 424\<rparr>]
   \<and> rooted (loadPositions [(-1, 600, 280), (0, 32, 48), (1, 32, 48), (2, 32, 48)]) 3
   \<and> has_parent (loadPositions [(-1, 600, 280), (0, 32, 48), (1, 32, 48), (2, 32, 48)]) 3
   \<and> parent_of (loadPositions [(-1, 600, 280), (0, 32, 48), (1, 32, 48), (2, 32, 48)]) 3 = 2
   \<and> js_add (Num 32) (Num 664) = Num 696
   \<and> js_add (Num 48) (Num 376) = Num 424
   \<and> rooted (loadPositions [(-1, 600, 280), (0, 32, 48), (1, 32, 48), (2, 32, 48)]) 2"
proof -
  let ?ps = "loadPositions [(-1, 600, 280), (0, 32, 48), (1, 32, 48), (2, 32, 48)]"
  let ?r = "[\<lparr>parentIndex = -1, x = 600, y = 280, realX = Num 600, realY = Num 280\<rparr>,
        \<lparr>parentIndex = 0, x = 32, y = 48, realX = Num 632, realY = Num 328\<rparr>,
        \<lparr>parentIndex = 1, x = 32, y = 48, realX = Num 664, realY = Num 376\<rparr>,
        \<lparr>parentIndex = 2, x = 32, y = 48, realX = Num 696, realY = Num 424\<rparr>]"
  have pass: "calculateBattlePositions ?ps = Inr ?r"
    by code_simp
  have chain: "rooted ?ps 3"
    by code_simp
  have parent: "has_parent ?ps 3"
    by code_simp
  have p: "parent_of ?ps 3 = 2"
    by code_simp
  from valid_chain_adds_parent_position [OF pass chain parent] pass chain parent p
  show ?thesis by simp
qed

text \<open>
  C3. A record whose \<open>parentIndex\<close> is negative or at least the number of records has,
  after a full pass, \<open>realX\<close> equal to its own \<open>x\<close> and \<open>realY\<close> equal to its own \<open>y\<close>,
  whatever the derived fields held before the pass.
\<close>

theorem invalid_parent_resolves_to_own_offset:
  assumes "calculateBattlePositions ps = Inr r"
    and "i < length ps"
    and "parentIndex (ps ! i) < 0 \<or> int (length ps) \<le> parentIndex (ps ! i)"
  shows "realX (r ! i) = Num (x (r ! i)) \<and> realY (r ! i) = Num (y (r ! i))"
proof -
  from assms(3) have "\<not> has_parent ps i"
    by (auto simp: has_parent_def)
  with assms(2) have "anchored ps i 0 (x (ps ! i)) (y (ps ! i))"
    by (rule anchored_root)
  with assms(1) have "realX (r ! i) = Num (x (ps ! i)) \<and> realY (r ! i) = Num (y (ps ! i))"
    by (rule calculateBattlePositions_anchored)
  moreover have "x (r ! i) = x (ps ! i)" and "y (r ! i) = y (ps ! i)"
    using config_nth [OF calculateBattlePositions_config [OF assms(1)] assms(2)] by simp_all
  ultimately show ?thesis by simp
qed

theorem invalid_parent_resolves_to_own_offset_witness:
  "calculateBattlePositions
     [\<lparr>parentIndex = 7, x = 10, y = 20, realX = Num 99, realY = NaN\<rparr>,
      \<lparr>parentIndex = 0, x = 1, y = 2, realX = Undefined, realY = Undefined\<rparr>] =
   Inr [\<lparr>parentIndex = 7, x = 10, y = 20, realX = Num 10, realY = Num 20\<rparr>,
        \<lparr>parentIndex = 0, x = 1, y = 2, realX = Num 11, realY = Num 22\<rparr>]
   \<and> realX ([\<lparr>parentIndex = 7, x = 10, y = 20, realX = Num 10, realY = Num 20\<rparr>,
        \<lparr>parentIndex = 0, x = 1, y = 2, realX = Num 11, realY = Num 22\<rparr>] ! 0) = Num 10
   \<and> realY ([\<lparr>parentIndex = 7, x = 10, y = 20, realX = Num 10, realY = Num 20\<rparr>,
        \<lparr>parentIndex = 0, x = 1, y = 2, realX = Num 11, realY = Num 22\<rparr>] ! 0) = Num 20"
proof -
  let ?ps = "[\<lparr>parentIndex = 7, x = 10, y = 20, realX = Num 99, realY = NaN\<rparr>,
      \<lparr>parentIndex = 0, x = 1, y = 2, realX = Undefined, realY = Undefined\<rparr>]"
  let ?r = "[\<lparr>parentIndex = 7, x = 10, y = 20, realX = Num 10, realY = Num 20\<rparr>,
        \<lparr>parentIndex = 0, x = 1, y = 2, realX = Num 11, realY = Num 22\<rparr>]"
  have pass: "calculateBattlePositions ?ps = Inr ?r"
    by code_simp
  have inside: "0 < length ?ps"
    by simp
  have invalid: "parentIndex (?ps ! 0) < 0 \<or> int (length ?ps) \<le> parentIndex (?ps ! 0)"
    by simp
  from invalid_parent_resolves_to_own_offset [OF pass inside invalid] pass
  show ?thesis by simp
qed

text \<open>
  C4 (corrected). A full pass ends for every array of records and every size of the call
  stack, whatever the \<open>parentIndex\<close> fields hold (the empty array, self-parents and cycles
  of any length included): it visits each index at most once and nests at most one
  activation of \<open>recursiveCalcPos\<close> more than there are records. It returns without an
  error whenever the stack admits that many activations; otherwise it may throw, and then
  only the \<open>RangeError\<close> of the exhausted stack.
\<close>

theorem pass_returns_when_stack_admits_depth:
  "(calculateBattlePositions_stack limit ps = Inl RangeError \<or>
    calculateBattlePositions_stack limit ps = calculateBattlePositions ps) \<and>
   (\<exists>r events depth.
      calculateBattlePositions_traced ps = Inr (r, events, depth) \<and>
      calculateBattlePositions ps = Inr r \<and>
      (\<forall>i. count_list events (Visit i) \<le> 1) \<and>
      depth \<le> length ps + 1 \<and>
      (depth \<le> limit \<longrightarrow> calculateBattlePositions_stack limit ps = Inr r)) \<and>
   (length ps < limit \<longrightarrow> (\<exists>r. calculateBattlePositions_stack limit ps = Inr r))"
proof -
  obtain r events depth
    where t: "calculateBattlePositions_traced ps = Inr (r, events, depth)"
      and p: "calculateBattlePositions ps = Inr r"
      and counts: "\<forall>ev. \<not> is_read ev \<longrightarrow>
        count_list events ev = (if event_index ev < length ps then 1 else 0)"
      and depth: "depth \<le> length ps + 1"
    using calculateBattlePositions_traced_summary by blast
  note stack = calculateBattlePositions_stack_depth [OF t, of limit]
  have once: "count_list events (Visit i) \<le> 1" for i
    using counts by simp
  have "calculateBattlePositions_stack limit ps = Inl RangeError \<or>
      calculateBattlePositions_stack limit ps = calculateBattlePositions ps"
    using stack p by simp
  moreover have "depth \<le> limit \<longrightarrow> calculateBattlePositions_stack limit ps = Inr r"
    using stack by simp
  moreover have "length ps < limit \<longrightarrow> (\<exists>r. calculateBattlePositions_stack limit ps = Inr r)"
    using stack depth by simp
  ultimately show ?thesis
    using t p once depth by blast
qed

theorem pass_returns_when_stack_admits_depth_witness:
  "calculateBattlePositions_stack 4 (loadPositions [(2, 10, 20), (0, 1, 1), (1, 5, 5)]) =
     Inr [\<lparr>parentIndex = 2, x = 10, y = 20, realX = NaN, realY = NaN\<rparr>,
          \<lparr>parentIndex = 0, x = 1, y = 1, realX = NaN, realY = NaN\<rparr>,
          \<lparr>parentIndex = 1, x = 5, y = 5, realX = NaN, realY = NaN\<rparr>]
   \<and> length (loadPositions [(2, 10, 20), (0, 1, 1), (1, 5, 5)]) < 4"
proof -
  let ?ps = "loadPositions [(2, 10, 20), (0, 1, 1), (1, 5, 5)]"
  have small: "length ?ps < 4"
    by (simp add: loadPositions_def)
  have plain: "calculateBattlePositions ?ps =
     Inr [\<lparr>parentIndex = 2, x = 10, y = 20, realX = NaN, realY = NaN\<rparr>,
          \<lparr>parentIndex = 0, x = 1, y = 1, realX = NaN, realY = NaN\<rparr>,
          \<lparr>parentIndex = 1, x = 5, y = 5, realX = NaN, realY = NaN\<rparr>]"
    by code_simp
  from pass_returns_when_stack_admits_depth [of 4 ?ps] small
  have "calculateBattlePositions_stack 4 ?ps = calculateBattlePositions ?ps"
    by auto
  with plain small show ?thesis by simp
qed

text \<open>
  C4 as it was stated fails on the call stack: with room for 10000 activations of
  \<open>recursiveCalcPos\<close>, the pass over a chain of 10001 records, each naming the next as its
  parent, throws \<open>RangeError\<close>. By \<open>deep_chain_exhausts_stack\<close> the same holds for every size
  of the stack and the chain with one record more.
\<close>

theorem long_chain_exhausts_stack:
  "calculateBattlePositions_stack 10000 (deep_chain 10001) = Inl RangeError"
  using deep_chain_exhausts_stack [of 10000] by simp

text \<open>
  C5. For every configuration, a second full pass right after the first (with
  \<open>parentIndex\<close>, \<open>x\<close>, \<open>y\<close> untouched) returns the array the first pass returned: the
  same \<open>realX\<close> and \<open>realY\<close> for every record. The array \<open>visited\<close> is created anew by each
  pass, so no visit of the first pass is seen by the second. The array is taken as the
  plugin parameters give it; a record on a cycle holds \<open>NaN\<close> after the first pass and
  after the second.
\<close>

theorem second_pass_repeats_first:
  "\<exists>r. calculateBattlePositions (loadPositions cs) = Inr r \<and>
        calculateBattlePositions r = Inr r"
proof -
  obtain r where first: "calculateBattlePositions (loadPositions cs) = Inr r"
    using calculateBattlePositions_returns by blast
  obtain r' where second: "calculateBattlePositions r = Inr r'"
    using calculateBattlePositions_returns by blast
  have "stale_free r r"
    using first stale_free_loadPositions by (rule calculateBattlePositions_stale_free)
  moreover have "map config r = map config (loadPositions cs)"
    using first by (rule calculateBattlePositions_config)
  ultimately have "r' = r"
    using calculateBattlePositions_determined [OF first stale_free_loadPositions second]
    by simp
  with first second show ?thesis by simp
qed




text \<open>
  C7. For the default formation
  \<open>[{parentIndex: -1, x: 600, y: 280}, {parentIndex: 0, x: 32, y: 48},
  {parentIndex: 1, x: 32, y: 48}, {parentIndex: 2, x: 32, y: 48}]\<close> a full pass gives the
  positions (600, 280), (632, 328), (664, 376), (696, 424); for the empty array the pass
  completes without an error and leaves the empty array.
\<close>

theorem default_formation_positions:
  "calculateBattlePositions
     (loadPositions [(-1, 600, 280), (0, 32, 48), (1, 32, 48), (2, 32, 48)]) =
   Inr [\<lparr>parentIndex = -1, x = 600, y = 280, realX = Num 600, realY = Num 280\<rparr>,
        \<lparr>parentIndex = 0, x = 32, y = 48, realX = Num 632, realY = Num 328\<rparr>,
        \<lparr>parentIndex = 1, x = 32, y = 48, realX = Num 664, realY = Num 376\<rparr>,
        \<lparr>parentIndex = 2, x = 32, y = 48, realX = Num 696, realY = Num 424\<rparr>]
   \<and> calculateBattlePositions (loadPositions []) = Inr []"
  by code_simp

text \<open>
  C8. A full pass changes nothing but the derived fields: the array keeps its length and
  every record keeps its \<open>parentIndex\<close>, \<open>x\<close> and \<open>y\<close>; and it assigns \<open>realX\<close> exactly once
  and \<open>realY\<close> exactly once for every record of the array.
\<close>

theorem pass_writes_only_derived_fields_once:
  "\<exists>r events depth.
     calculateBattlePositions_traced ps = Inr (r, events, depth) \<and>
     calculateBattlePositions ps = Inr r \<and>
     length r = length ps \<and>
     (\<forall>i < length ps.
        parentIndex (r ! i) = parentIndex (ps ! i) \<and>
        x (r ! i) = x (ps ! i) \<and> y (r ! i) = y (ps ! i) \<and>
        count_list events (SetRealX i) = 1 \<and> count_list events (SetRealY i) = 1)"
proof -
  obtain r events depth
    where t: "calculateBattlePositions_traced ps = Inr (r, events, depth)"
      and p: "calculateBattlePositions ps = Inr r"
      and counts: "\<forall>ev. \<not> is_read ev \<longrightarrow>
        count_list events ev = (if event_index ev < length ps then 1 else 0)"
    using calculateBattlePositions_traced_summary by blast
  have cfg: "map config r = map config ps"
    using p by (rule calculateBattlePositions_config)
  have "parentIndex (r ! i) = parentIndex (ps ! i) \<and>
        x (r ! i) = x (ps ! i) \<and> y (r ! i) = y (ps ! i) \<and>
        count_list events (SetRealX i) = 1 \<and> count_list events (SetRealY i) = 1"
    if "i < length ps" for i
    using config_nth [OF cfg that] counts that by simp
  moreover have "length r = length ps"
    using p by (rule calculateBattlePositions_length)
  ultimately show ?thesis
    using t p by blast
qed

theorem pass_writes_only_derived_fields_once_witness:
  "calculateBattlePositions_traced
     [\<lparr>parentIndex = 1, x = 10, y = 20, realX = Undefined, realY = Undefined\<rparr>,
      \<lparr>parentIndex = -1, x = 1, y = 2, realX = Num 5, realY = NaN\<rparr>] =
   Inr ([\<lparr>parentIndex = 1, x = 10, y = 20, realX = Num 11, realY = Num 22\<rparr>,
         \<lparr>parentIndex = -1, x = 1, y = 2, realX = Num 1, realY = Num 2\<rparr>],
        [Visit 0, Visit 1, SetRealX 1, SetRealY 1,
         GetRealX 0 1 (Num 1), SetRealX 0, GetRealY 0 1 (Num 2), SetRealY 0], 2)
   \<and> count_list [Visit 0, Visit 1, SetRealX 1, SetRealY 1,
         GetRealX 0 1 (Num 1), SetRealX 0, GetRealY 0 1 (Num 2), SetRealY 0]
         (SetRealX 0) = 1
   \<and> count_list [Visit 0, Visit 1, SetRealX 1, SetRealY 1,
         GetRealX 0 1 (Num 1), SetRealX 0, GetRealY 0 1 (Num 2), SetRealY 0]
         (SetRealY 1) = 1"
proof -
  let ?ps = "[\<lparr>parentIndex = 1, x = 10, y = 20, realX = Undefined, realY = Undefined\<rparr>,
      \<lparr>parentIndex = -1, x = 1, y = 2, realX = Num 5, realY = NaN\<rparr>]"
  let ?events = "[Visit 0, Visit 1, SetRealX 1, SetRealY 1,
         GetRealX 0 1 (Num 1), SetRealX 0, GetRealY 0 1 (Num 2), SetRealY 0]"
  have run: "calculateBattlePositions_traced ?ps =
      Inr ([\<lparr>parentIndex = 1, x = 10, y = 20, realX = Num 11, realY = Num 22\<rparr>,
            \<lparr>parentIndex = -1, x = 1, y = 2, realX = Num 1, realY = Num 2\<rparr>], ?events, 2)"
    by code_simp
  from pass_writes_only_derived_fields_once [of ?ps] obtain r events depth
    where "calculateBattlePositions_traced ?ps = Inr (r, events, depth)"
      and once: "\<forall>i < length ?ps.
        count_list events (SetRealX i) = 1 \<and> count_list events (SetRealY i) = 1"
    by blast
  with run have "events = ?events" by simp
  with once have "count_list ?events (SetRealX 0) = 1" and "count_list ?events (SetRealY 1) = 1"
    by simp_all
  with run show ?thesis by simp
qed

text \<open>
  C9. \<open>setActorHome\<close> for an index without a record (negative, or at least the number of
  records) calls the method of the engine it replaced, with that index, and makes no call
  of \<open>setHome\<close>, so it places nothing at a zero coordinate; for an index with a record it
  calls \<open>setHome\<close> with the \<open>realX\<close> and \<open>realY\<close> of that record and not the method of the
  engine.
\<close>

theorem anchor_lookup_defers_without_record:
  "(index < 0 \<or> int (length ps) \<le> index \<longrightarrow>
      setActorHome ps index = HostDefault index \<and>
      (\<forall>a b. setActorHome ps index \<noteq> SetHome a b)) \<and>
   (0 \<le> index \<and> index < int (length ps) \<longrightarrow>
      setActorHome ps index = SetHome (realX (ps ! nat index)) (realY (ps ! nat index)) \<and>
      (\<forall>k. setActorHome ps index \<noteq> HostDefault k))"
  by (auto simp: setActorHome_def Let_def)

theorem anchor_lookup_defers_without_record_witness:
  "setActorHome
     [\<lparr>parentIndex = -1, x = 600, y = 280, realX = Num 600, realY = Num 280\<rparr>,
      \<lparr>parentIndex = 0, x = 32, y = 48, realX = Num 632, realY = Num 328\<rparr>] 2 = HostDefault 2
   \<and> setActorHome
     [\<lparr>parentIndex = -1, x = 600, y = 280, realX = Num 600, realY = Num 280\<rparr>,
      \<lparr>parentIndex = 0, x = 32, y = 48, realX = Num 632, realY = Num 328\<rparr>] (-1) = HostDefault (-1)
   \<and> setActorHome
     [\<lparr>parentIndex = -1, x = 600, y = 280, realX = Num 600, realY = Num 280\<rparr>,
      \<lparr>parentIndex = 0, x = 32, y = 48, realX = Num 632, realY = Num 328\<rparr>] 1 =
     SetHome (Num 632) (Num 328)"
proof -
  let ?ps = "[\<lparr>parentIndex = -1, x = 600, y = 280, realX = Num 600, realY = Num 280\<rparr>,
      \<lparr>parentIndex = 0, x = 32, y = 48, realX = Num 632, realY = Num 328\<rparr>]"
  have "setActorHome ?ps 2 = HostDefault 2"
    using anchor_lookup_defers_without_record [of 2 ?ps] by simp
  moreover have "setActorHome ?ps (-1) = HostDefault (-1)"
    using anchor_lookup_defers_without_record [of "-1" ?ps] by simp
  moreover have "setActorHome ?ps 1 = SetHome (Num 632) (Num 328)"
    using anchor_lookup_defers_without_record [of 1 ?ps] by simp
  ultimately show ?thesis by simp
qed

text \<open>
  C10. \<open>setActorHome\<close> chooses between \<open>setHome\<close> and the method of the engine by the
  presence of a record alone: it calls \<open>setHome\<close> exactly for the indices inside the
  array, whatever the derived fields hold. For an index inside the array as the plugin
  parameters give it, before any pass, it calls \<open>setHome\<close> with \<open>undefined\<close> twice.
\<close>

theorem anchor_lookup_ignores_whether_pass_ran:
  "((\<exists>a b. setActorHome ps index = SetHome a b) \<longleftrightarrow> 0 \<le> index \<and> index < int (length ps)) \<and>
   (0 \<le> index \<and> index < int (length cs) \<longrightarrow>
      setActorHome (loadPositions cs) index = SetHome Undefined Undefined)"
  by (auto simp: setActorHome_def Let_def loadPositions_def fresh_def split: prod.splits)

theorem anchor_lookup_ignores_whether_pass_ran_witness:
  "setActorHome (loadPositions [(-1, 600, 280), (0, 32, 48)]) 1 = SetHome Undefined Undefined"
  using anchor_lookup_ignores_whether_pass_ran [of "[]" 1 "[(-1, 600, 280), (0, 32, 48)]"]
  by simp

end
